theory Spec2Isabelle
  imports Main "HOL-Library.Finite_Map" "HOL-Library.AList"
begin

section \<open>Format values and value equality\<close>

text \<open>
  The range index of a slot (class \<open>Format\<close>) is embedded here.

  A \<open>FormatValue\<close> is a string, a number, a boolean, a flat record of those, \<open>null\<close>,
  or a \<open>CleanFormatRule\<close> wrapping one of the former. Numbers, as values and as
  indices, are modelled as unbounded integers (no fractions, no \<open>NaN\<close>). The operations
  that change the store are modelled on arrays of any length; the limit of
  \<open>2\<^sup>3\<^sup>2 - 1\<close> elements that an array has, and the \<open>RangeError\<close> thrown beyond it, are
  modelled for \<open>discard\<close>, by the functions named \<open>_checked\<close>, which return what the
  unchecked ones compute whenever they return. A record object is modelled by its own properties (a finite map
  from property names to primitives): objects are identified with their contents, so that
  \<open>===\<close> on two objects is equality of contents. \<open>null\<close> and \<open>undefined\<close>, which the
  code only ever tests together, through \<open>isVoid\<close>, are the single value \<open>None\<close> of
  \<open>fvalue\<close>.
\<close>

datatype prim = PStr string | PNum int | PBool bool

datatype plain = Prim prim | Rec "(string, prim) fmap"

datatype sval = Plain plain | Clean "plain option"

type_synonym fvalue = "sval option"

definition isVoid :: "'a option \<Rightarrow> bool" where
  "isVoid data = (data = None)"

text \<open>
  \<open>own_props\<close> gives \<open>Object.keys\<close> together with the property values of a value whose
  \<open>typeof\<close> is \<open>'object'\<close>: a record has its fields, a \<open>CleanFormatRule\<close> has the single
  property \<open>value\<close>. Primitives have \<open>typeof \<noteq> 'object'\<close>.
\<close>

fun own_props :: "sval \<Rightarrow> (string, plain option) fmap option" where
  "own_props (Plain (Prim p)) = None"
| "own_props (Plain (Rec r)) = Some (fmmap (\<lambda>p. Some (Prim p)) r)"
| "own_props (Clean v) = Some (fmupd ''value'' v fmempty)"

text \<open>\<open>Format.equal\<close>, on the non-void values that reach it.\<close>

definition equal :: "sval \<Rightarrow> sval \<Rightarrow> bool" where
  "equal left right =
     (if left = right then True
      else (case (own_props left, own_props right) of
              (Some leftProps, Some rightProps) \<Rightarrow>
                 (if fcard (fmdom leftProps) = fcard (fmdom rightProps)
                  then fBall (fmdom leftProps) (\<lambda>key. key |\<in>| fmdom rightProps
                          \<and> fmlookup rightProps key = fmlookup leftProps key)
                  else False)
            | _ \<Rightarrow> False))"

section \<open>Ranges, formatters and the store\<close>

text \<open>
  A \<open>FormatRange\<close>. Stored ranges never carry a void value (\<open>merge\<close> tests \<open>isVoid\<close>
  before the first insertion, \<open>toRanges\<close> skips void cells), so a stored range is an
  \<open>sval frange\<close>; the range handed to \<open>merge\<close>, and the ranges that are tiled, may carry
  \<open>null\<close> and are \<open>fvalue frange\<close>. Ranges are modelled as values: \<open>merge\<close> keeps
  the range object it is given when it inserts the first range of a formatter, and the
  model takes every caller to hand over an object of its own, so that no range object
  occurs twice in a store.
\<close>

record 'v frange =
  startIndex :: int
  endIndex :: int
  val :: 'v

datatype FormatType = Block | Inline

text \<open>
  Modelled from the spec: the \<open>Formatter\<close> descriptor (its declaration, formatter.ts, is
  not among the sources): name, scope, \<open>overlap\<close> and \<open>columned\<close> flags. A formatter
  object is identified with its descriptor.
\<close>

record formatter =
  name :: string
  ftype :: FormatType
  overlap :: bool
  columned :: bool

text \<open>
  The store. Modelled from the spec: of the slot (slot.ts is not among the sources) the
  store reads the length only, and \<open>slot_length\<close> is the length at the time of the call.
  The \<open>Map\<close> from formatter to ranges is an association list in insertion order; a
  \<open>Map\<close> has distinct keys, and the operations keep them distinct.
\<close>

type_synonym range_map = "(formatter \<times> sval frange list) list"

record format =
  slot_length :: nat
  fmt_map :: range_map

definition map_get :: "('k \<times> 'v) list \<Rightarrow> 'k \<Rightarrow> 'v option" where
  "map_get m k = map_of m k"

definition map_set :: "('k \<times> 'v) list \<Rightarrow> 'k \<Rightarrow> 'v \<Rightarrow> ('k \<times> 'v) list" where
  "map_set m k v = AList.update k v m"

definition map_delete :: "('k \<times> 'v) list \<Rightarrow> 'k \<Rightarrow> ('k \<times> 'v) list" where
  "map_delete m k = AList.delete k m"

section \<open>Arrays\<close>

text \<open>
  A dense array of per-position values is a list of \<open>fvalue\<close>; holes read as
  \<open>undefined\<close> and are \<open>None\<close>. \<open>set_length\<close> is the assignment to \<open>length\<close>,
  \<open>rel_index\<close> the clamping of a relative index that \<open>fill\<close> and \<open>splice\<close> perform.
\<close>

definition set_length :: "nat \<Rightarrow> 'a option list \<Rightarrow> 'a option list" where
  "set_length n xs = take n xs @ replicate (n - length xs) None"

definition rel_index :: "nat \<Rightarrow> int \<Rightarrow> nat" where
  "rel_index len i = (if i < 0 then nat (max (int len + i) 0) else min (nat i) len)"

definition fill :: "'a \<Rightarrow> int \<Rightarrow> int \<Rightarrow> 'a list \<Rightarrow> 'a list" where
  "fill v start end xs =
     (let k = rel_index (length xs) start; final = rel_index (length xs) end
      in if k < final then take k xs @ replicate (final - k) v @ drop final xs else xs)"

definition splice :: "int \<Rightarrow> int \<Rightarrow> 'a list \<Rightarrow> 'a list \<Rightarrow> 'a list" where
  "splice start deleteCount items xs =
     (let k = rel_index (length xs) start;
          d = min (nat (max deleteCount 0)) (length xs - k)
      in take k xs @ items @ drop (k + d) xs)"

section \<open>tileRanges, toRanges, formatRangesToMap\<close>

definition tile_step :: "fvalue list \<Rightarrow> fvalue frange \<Rightarrow> fvalue list" where
  "tile_step formatValues rng =
     fill (val rng) (startIndex rng) (endIndex rng)
       (set_length (nat (max (int (length formatValues)) (endIndex rng))) formatValues)"

definition tileRanges :: "nat \<Rightarrow> fvalue frange list \<Rightarrow> fvalue list" where
  "tileRanges slotLength ranges =
     (let formatValues = foldl tile_step [] ranges
      in set_length (min (length formatValues) slotLength) formatValues)"

text \<open>
  The loop of \<open>toRanges\<close>. The variable \<open>range\<close> of the source is either \<open>null\<close> or the
  range pushed last, which it goes on extending in place; \<open>cur\<close> is that open range, and
  it is emitted when the run ends.
\<close>

fun toRanges_loop :: "nat \<Rightarrow> fvalue list \<Rightarrow> sval frange option \<Rightarrow> sval frange list" where
  "toRanges_loop i [] cur = (case cur of None \<Rightarrow> [] | Some rng \<Rightarrow> [rng])"
| "toRanges_loop i (None # values) cur =
     (case cur of None \<Rightarrow> [] | Some rng \<Rightarrow> [rng]) @ toRanges_loop (Suc i) values None"
| "toRanges_loop i (Some item # values) cur =
     (case cur of
        None \<Rightarrow> toRanges_loop (Suc i) values
                  (Some \<lparr>startIndex = int i, endIndex = int i + 1, val = item\<rparr>)
      | Some rng \<Rightarrow>
          if equal (val rng) item
          then toRanges_loop (Suc i) values (Some (rng\<lparr>endIndex := int i + 1\<rparr>))
          else rng # toRanges_loop (Suc i) values
                  (Some \<lparr>startIndex = int i, endIndex = int i + 1, val = item\<rparr>))"

definition toRanges :: "fvalue list \<Rightarrow> sval frange list" where
  "toRanges values = toRanges_loop 0 values None"

text \<open>
  \<open>formatRangesToMap\<close> groups ranges by value: a range joins the first group whose key
  \<open>Format.equal\<close> identifies with its value, or opens a new group at the end. The
  \<open>Map\<close> it returns is the list of groups with their keys, in insertion order.
\<close>

fun group_insert ::
  "sval frange \<Rightarrow> (sval \<times> sval frange list) list \<Rightarrow> (sval \<times> sval frange list) list" where
  "group_insert item [] = [(val item, [item])]"
| "group_insert item ((key, g) # m) =
     (if equal key (val item) then (key, g @ [item]) # m else (key, g) # group_insert item m)"

definition formatRangesToMap :: "sval frange list \<Rightarrow> (sval \<times> sval frange list) list" where
  "formatRangesToMap oldRanges = foldl (\<lambda>m item. group_insert item m) [] oldRanges"

section \<open>normalizeFormatRange\<close>

definition lift :: "sval frange \<Rightarrow> fvalue frange" where
  "lift r = \<lparr>startIndex = startIndex r, endIndex = endIndex r, val = Some (val r)\<rparr>"

text \<open>The loop \<open>for (const item of map.keys()) { if (...) { ...; break } }\<close>.\<close>

fun update_first :: "('k \<Rightarrow> bool) \<Rightarrow> ('v \<Rightarrow> 'v) \<Rightarrow> ('k \<times> 'v) list \<Rightarrow> ('k \<times> 'v) list" where
  "update_first p f [] = []"
| "update_first p f ((k, v) # m) =
     (if p k then (k, f v) # m else (k, v) # update_first p f m)"

text \<open>
  \<open>lift\<close> reads a stored range as a range to tile. In the branch for a
  \<open>CleanFormatRule\<close> on a formatter without overlap, the source also tiles and splices
  an array \<open>values\<close> that it never reads again; the group is replaced by
  \<open>toRanges(cleanValues)\<close>.
\<close>

definition normalizeFormatRange ::
  "nat \<Rightarrow> formatter \<Rightarrow> sval frange list \<Rightarrow> fvalue frange option \<Rightarrow> sval frange list" where
  "normalizeFormatRange slotLength fmt oldRanges newRange =
     (if overlap fmt then
        (let valueGroups =
           (case newRange of
              Some nr \<Rightarrow>
                (case val nr of
                   Some (Clean cv) \<Rightarrow>
                     (let m = map (\<lambda>(k, g). (k, map lift g)) (formatRangesToMap oldRanges)
                      in map snd
                          (case cv of
                             None \<Rightarrow> map (\<lambda>(k, g). (k, g @ [nr\<lparr>val := None\<rparr>])) m
                           | Some v \<Rightarrow>
                               update_first (\<lambda>item. equal item (Plain v))
                                 (\<lambda>g. g @ [nr\<lparr>val := None\<rparr>]) m))
                 | None \<Rightarrow>
                     map (\<lambda>(k, g). map lift g @ [nr\<lparr>val := None\<rparr>])
                       (formatRangesToMap oldRanges)
                 | Some (Plain v) \<Rightarrow>
                     map (\<lambda>(k, g). map lift g)
                       (formatRangesToMap
                          (\<lparr>startIndex = startIndex nr, endIndex = endIndex nr,
                            val = Plain v\<rparr> # oldRanges)))
            | None \<Rightarrow> map (\<lambda>(k, g). map lift g) (formatRangesToMap oldRanges))
         in concat (map (\<lambda>item. toRanges (tileRanges slotLength item)) valueGroups))
      else
        (let oldRanges' =
           (case newRange of
              Some nr \<Rightarrow>
                (case val nr of
                   Some (Clean cv) \<Rightarrow>
                     (let m = formatRangesToMap oldRanges
                      in case cv of
                           None \<Rightarrow> map lift oldRanges @ [nr]
                         | Some v \<Rightarrow>
                             (let cleanValues =
                                    replicate (nat (endIndex nr - startIndex nr)) None
                              in map lift (concat (map snd
                                   (update_first (\<lambda>item. equal item (Clean cv))
                                      (\<lambda>g. toRanges cleanValues) m)))))
                 | _ \<Rightarrow> map lift oldRanges @ [nr])
            | None \<Rightarrow> map lift oldRanges)
         in toRanges (tileRanges slotLength oldRanges')))"

section \<open>merge\<close>

text \<open>
  \<open>merge\<close> has two overloads: a block formatter takes a \<open>FormatValue\<close>, an inline
  formatter a \<open>FormatRange\<close>. The two combinations that the overloads exclude leave the
  store as it is. For a block formatter with overlap the source adds the new whole-slot
  range to the grouped map under the formatter object as key, which is never a key of
  that map: the range always comes last, after the ranges of all groups.
\<close>

datatype merge_data = BlockData fvalue | InlineData "fvalue frange"

definition merge_block :: "format \<Rightarrow> formatter \<Rightarrow> fvalue \<Rightarrow> format" where
  "merge_block this fmt data =
     (case data of
        None \<Rightarrow> this\<lparr>fmt_map := map_delete (fmt_map this) fmt\<rparr>
      | Some d \<Rightarrow>
          if overlap fmt then
            (case d of
               Clean cv \<Rightarrow>
                 if isVoid cv then this\<lparr>fmt_map := map_delete (fmt_map this) fmt\<rparr> else this
             | Plain v \<Rightarrow>
                 (let oldRanges = (case map_get (fmt_map this) fmt of None \<Rightarrow> [] | Some rs \<Rightarrow> rs);
                      m = formatRangesToMap oldRanges
                  in this\<lparr>fmt_map := map_set (fmt_map this) fmt
                       (concat (map snd m) @
                        [\<lparr>startIndex = 0, endIndex = int (slot_length this), val = Plain v\<rparr>])\<rparr>))
          else
            (case d of
               Clean cv \<Rightarrow>
                 (case cv of
                    None \<Rightarrow> this\<lparr>fmt_map := map_delete (fmt_map this) fmt\<rparr>
                  | Some v \<Rightarrow>
                      (case map_get (fmt_map this) fmt of
                         None \<Rightarrow> this
                       | Some oldRanges \<Rightarrow>
                           (case oldRanges of
                              [] \<Rightarrow> this
                            | r # _ \<Rightarrow>
                                if equal (val r) (Plain v)
                                then this\<lparr>fmt_map := map_delete (fmt_map this) fmt\<rparr>
                                else this)))
             | Plain v \<Rightarrow>
                 this\<lparr>fmt_map := map_set (fmt_map this) fmt
                   [\<lparr>startIndex = 0, endIndex = int (slot_length this), val = Plain v\<rparr>]\<rparr>))"

definition merge_inline :: "format \<Rightarrow> formatter \<Rightarrow> fvalue frange \<Rightarrow> format" where
  "merge_inline this fmt data =
     (case map_get (fmt_map this) fmt of
        None \<Rightarrow>
          (case val data of
             None \<Rightarrow> this
           | Some v \<Rightarrow>
               this\<lparr>fmt_map := map_set (fmt_map this) fmt
                 [\<lparr>startIndex = startIndex data, endIndex = endIndex data, val = v\<rparr>]\<rparr>)
      | Some ranges \<Rightarrow>
          (let newRanges = normalizeFormatRange (slot_length this) fmt ranges (Some data)
           in if newRanges \<noteq> []
              then this\<lparr>fmt_map := map_set (fmt_map this) fmt newRanges\<rparr>
              else this\<lparr>fmt_map := map_delete (fmt_map this) fmt\<rparr>))"

definition merge :: "format \<Rightarrow> formatter \<Rightarrow> merge_data \<Rightarrow> format" where
  "merge this fmt data =
     (if ftype fmt = Block
      then (case data of BlockData d \<Rightarrow> merge_block this fmt d | InlineData r \<Rightarrow> this)
      else (case data of InlineData r \<Rightarrow> merge_inline this fmt r | BlockData d \<Rightarrow> this))"

section \<open>stretch, split, shrink\<close>

definition stretch_range :: "int \<Rightarrow> int \<Rightarrow> 'v frange \<Rightarrow> 'v frange" where
  "stretch_range index count rng =
     (if endIndex rng < index then rng
      else (let rng' = rng\<lparr>endIndex := endIndex rng + count\<rparr>
            in if startIndex rng' \<ge> index
               then rng'\<lparr>startIndex := startIndex rng' + count\<rparr>
               else rng'))"

definition stretch :: "format \<Rightarrow> int \<Rightarrow> int \<Rightarrow> format" where
  "stretch this index count =
     this\<lparr>fmt_map := map (\<lambda>(k, values). (k, map (stretch_range index count) values))
                       (fmt_map this)\<rparr>"

text \<open>
  \<open>split\<close>: \<open>expandedValues\<close> is \<open>Array.from({ length: distance })\<close>, an array of
  \<open>distance\<close> times \<open>undefined\<close> (empty when \<open>distance\<close> is not positive).
\<close>

definition split_ranges ::
  "nat \<Rightarrow> int \<Rightarrow> int \<Rightarrow> formatter \<Rightarrow> sval frange list \<Rightarrow> sval frange list" where
  "split_ranges slotLength index distance key formatRanges =
     (let expandedValues = replicate (nat distance) None
      in if ftype key = Block
         then map (\<lambda>i. i\<lparr>endIndex := endIndex i + distance\<rparr>) formatRanges
         else if overlap key
         then concat (map (\<lambda>(k, group).
                  toRanges (splice index 0 expandedValues
                              (tileRanges slotLength (map lift group))))
                (formatRangesToMap formatRanges))
         else toRanges (splice index 0 expandedValues
                          (tileRanges slotLength (map lift formatRanges))))"

definition split :: "format \<Rightarrow> int \<Rightarrow> int \<Rightarrow> format" where
  "split this index distance =
     this\<lparr>fmt_map := map (\<lambda>(key, formatRanges).
                (key, split_ranges (slot_length this) index distance key formatRanges))
              (fmt_map this)\<rparr>"

definition shrink_range :: "int \<Rightarrow> int \<Rightarrow> 'v frange \<Rightarrow> 'v frange" where
  "shrink_range start count rng =
     (if endIndex rng \<le> start then rng
      else (let rng' = rng\<lparr>endIndex := max start (endIndex rng - count)\<rparr>
            in if startIndex rng' > start
               then rng'\<lparr>startIndex := max start (startIndex rng' - count)\<rparr>
               else rng'))"

definition renormalize_key :: "nat \<Rightarrow> range_map \<Rightarrow> formatter \<Rightarrow> range_map" where
  "renormalize_key slotLength m key =
     (case map_get m key of
        None \<Rightarrow> m
      | Some oldRanges \<Rightarrow>
          (let newRanges = normalizeFormatRange slotLength key oldRanges None
           in if newRanges \<noteq> [] then map_set m key newRanges else map_delete m key))"

definition shrink :: "format \<Rightarrow> int \<Rightarrow> int \<Rightarrow> format" where
  "shrink this start count =
     (let m = map (\<lambda>(k, values). (k, map (shrink_range start count) values)) (fmt_map this)
      in this\<lparr>fmt_map := foldl (renormalize_key (slot_length this)) m (map fst m)\<rparr>)"

section \<open>extract, createFormatByRange, discard\<close>

definition extract_range :: "int \<Rightarrow> int \<Rightarrow> 'v frange \<Rightarrow> 'v frange list" where
  "extract_range start end rng =
     (if startIndex rng > end \<or> endIndex rng < start then []
      else (let s = max (startIndex rng) start; n = min (endIndex rng) end
            in if s < n then [\<lparr>startIndex = s, endIndex = n, val = val rng\<rparr>] else []))"

definition extractFormatRangesByFormatter ::
  "format \<Rightarrow> int \<Rightarrow> int \<Rightarrow> formatter \<Rightarrow> sval frange list" where
  "extractFormatRangesByFormatter this start end fmt =
     concat (map (extract_range start end)
       (case map_get (fmt_map this) fmt of None \<Rightarrow> [] | Some ranges \<Rightarrow> ranges))"

definition extractFormat :: "format \<Rightarrow> int \<Rightarrow> int \<Rightarrow> format" where
  "extractFormat this start end =
     \<lparr>slot_length = slot_length this,
      fmt_map = foldl (\<lambda>m (key, ranges).
                   (let extractRanges = extractFormatRangesByFormatter this start end key
                    in if extractRanges \<noteq> [] then map_set m key extractRanges else m))
                 [] (fmt_map this)\<rparr>"

definition createFormatByRange :: "format \<Rightarrow> nat \<Rightarrow> int \<Rightarrow> int \<Rightarrow> format" where
  "createFormatByRange this slotLength start end =
     \<lparr>slot_length = slotLength,
      fmt_map = foldl (\<lambda>m (key, ranges).
                   (let extractRanges = extractFormatRangesByFormatter this start end key
                    in if extractRanges \<noteq> []
                       then map_set m key
                              (map (\<lambda>i. i\<lparr>startIndex := startIndex i - start,
                                           endIndex := endIndex i - start\<rparr>) extractRanges)
                       else m))
                 [] (fmt_map this)\<rparr>"

text \<open>
  Arrays with their length limit. The length of an array is at most \<open>2\<^sup>3\<^sup>2 - 1\<close>:
  an assignment to \<open>length\<close> of a number outside \<open>0 .. 2\<^sup>3\<^sup>2 - 1\<close>,
  \<open>Array.from({ length: n })\<close> with \<open>n\<close> beyond the limit, and a \<open>splice\<close> whose result
  would be longer, throw a \<open>RangeError\<close>. (\<open>Array.from\<close> reads a negative length as 0.)
\<close>

datatype error = RangeError

definition max_array_length :: int where
  "max_array_length = 4294967295"

definition set_length_checked :: "int \<Rightarrow> 'a option list \<Rightarrow> error + 'a option list" where
  "set_length_checked n xs =
     (if 0 \<le> n \<and> n \<le> max_array_length then Inr (set_length (nat n) xs) else Inl RangeError)"

definition array_from_length :: "int \<Rightarrow> error + 'a option list" where
  "array_from_length n =
     (if n \<le> max_array_length then Inr (replicate (nat n) None) else Inl RangeError)"

definition splice_checked :: "int \<Rightarrow> int \<Rightarrow> 'a list \<Rightarrow> 'a list \<Rightarrow> error + 'a list" where
  "splice_checked start deleteCount items xs =
     (let r = splice start deleteCount items xs
      in if int (length r) \<le> max_array_length then Inr r else Inl RangeError)"

text \<open>
  \<open>tileRanges\<close> with the two assignments to \<open>length\<close> checked; the loop stops at the
  first range whose \<open>endIndex\<close> is not an array length.
\<close>

definition tile_step_checked :: "fvalue list \<Rightarrow> fvalue frange \<Rightarrow> error + fvalue list" where
  "tile_step_checked formatValues rng =
     (case set_length_checked (max (int (length formatValues)) (endIndex rng)) formatValues of
        Inl e \<Rightarrow> Inl e
      | Inr vs \<Rightarrow> Inr (fill (val rng) (startIndex rng) (endIndex rng) vs))"

fun tile_loop_checked :: "fvalue list \<Rightarrow> fvalue frange list \<Rightarrow> error + fvalue list" where
  "tile_loop_checked formatValues [] = Inr formatValues"
| "tile_loop_checked formatValues (rng # ranges) =
     (case tile_step_checked formatValues rng of
        Inl e \<Rightarrow> Inl e
      | Inr vs \<Rightarrow> tile_loop_checked vs ranges)"

definition tileRanges_checked :: "nat \<Rightarrow> fvalue frange list \<Rightarrow> error + fvalue list" where
  "tileRanges_checked slotLength ranges =
     (case tile_loop_checked [] ranges of
        Inl e \<Rightarrow> Inl e
      | Inr formatValues \<Rightarrow>
          set_length_checked (min (int (length formatValues)) (int slotLength)) formatValues)"

text \<open>
  \<open>normalizeFormatRange\<close> with every array operation checked. \<open>tile_groups_checked\<close> is
  the loop \<open>for (const item of valueGroups) result.push(...)\<close> of the overlap branch;
  \<open>clean_group_checked\<close> is the loop over \<open>map.keys()\<close> of the branch for a
  \<open>CleanFormatRule\<close> without overlap, where the group that matches is tiled and spliced
  before it is replaced.
\<close>

fun tile_groups_checked :: "nat \<Rightarrow> fvalue frange list list \<Rightarrow> error + sval frange list" where
  "tile_groups_checked slotLength [] = Inr []"
| "tile_groups_checked slotLength (item # valueGroups) =
     (case tileRanges_checked slotLength item of
        Inl e \<Rightarrow> Inl e
      | Inr values \<Rightarrow>
          (case tile_groups_checked slotLength valueGroups of
             Inl e \<Rightarrow> Inl e
           | Inr result \<Rightarrow> Inr (toRanges values @ result)))"

fun clean_group_checked ::
  "nat \<Rightarrow> fvalue frange \<Rightarrow> sval \<Rightarrow> (sval \<times> sval frange list) list
     \<Rightarrow> error + (sval \<times> sval frange list) list" where
  "clean_group_checked slotLength nr value [] = Inr []"
| "clean_group_checked slotLength nr value ((item, g) # m) =
     (if equal item value then
        (case tileRanges_checked slotLength (map lift g) of
           Inl e \<Rightarrow> Inl e
         | Inr values \<Rightarrow>
             (case array_from_length (endIndex nr - startIndex nr) of
                Inl e \<Rightarrow> Inl e
              | Inr cleanValues \<Rightarrow>
                  (case splice_checked (startIndex nr) (endIndex nr - startIndex nr)
                          cleanValues values of
                     Inl e \<Rightarrow> Inl e
                   | Inr spliced \<Rightarrow> Inr ((item, toRanges cleanValues) # m))))
      else (case clean_group_checked slotLength nr value m of
              Inl e \<Rightarrow> Inl e
            | Inr m' \<Rightarrow> Inr ((item, g) # m')))"

definition normalizeFormatRange_checked ::
  "nat \<Rightarrow> formatter \<Rightarrow> sval frange list \<Rightarrow> fvalue frange option
     \<Rightarrow> error + sval frange list" where
  "normalizeFormatRange_checked slotLength fmt oldRanges newRange =
     (if overlap fmt then
        (let valueGroups =
           (case newRange of
              Some nr \<Rightarrow>
                (case val nr of
                   Some (Clean cv) \<Rightarrow>
                     (let m = map (\<lambda>(k, g). (k, map lift g)) (formatRangesToMap oldRanges)
                      in map snd
                          (case cv of
                             None \<Rightarrow> map (\<lambda>(k, g). (k, g @ [nr\<lparr>val := None\<rparr>])) m
                           | Some v \<Rightarrow>
                               update_first (\<lambda>item. equal item (Plain v))
                                 (\<lambda>g. g @ [nr\<lparr>val := None\<rparr>]) m))
                 | None \<Rightarrow>
                     map (\<lambda>(k, g). map lift g @ [nr\<lparr>val := None\<rparr>])
                       (formatRangesToMap oldRanges)
                 | Some (Plain v) \<Rightarrow>
                     map (\<lambda>(k, g). map lift g)
                       (formatRangesToMap
                          (\<lparr>startIndex = startIndex nr, endIndex = endIndex nr,
                            val = Plain v\<rparr> # oldRanges)))
            | None \<Rightarrow> map (\<lambda>(k, g). map lift g) (formatRangesToMap oldRanges))
         in tile_groups_checked slotLength valueGroups)
      else
        (case
           (case newRange of
              Some nr \<Rightarrow>
                (case val nr of
                   Some (Clean cv) \<Rightarrow>
                     (let m = formatRangesToMap oldRanges
                      in case cv of
                           None \<Rightarrow> Inr (map lift oldRanges @ [nr])
                         | Some v \<Rightarrow>
                             (case clean_group_checked slotLength nr (Clean cv) m of
                                Inl e \<Rightarrow> Inl e
                              | Inr m' \<Rightarrow> Inr (map lift (concat (map snd m')))))
                 | _ \<Rightarrow> Inr (map lift oldRanges @ [nr]))
            | None \<Rightarrow> Inr (map lift oldRanges)) of
           Inl e \<Rightarrow> Inl e
         | Inr oldRanges' \<Rightarrow>
             (case tileRanges_checked slotLength oldRanges' of
                Inl e \<Rightarrow> Inl e
              | Inr formatValues \<Rightarrow> Inr (toRanges formatValues))))"

text \<open>
  \<open>discard\<close> computes the normalized ranges and drops them: it returns the store, or
  throws what \<open>normalizeFormatRange\<close> throws. It writes nothing to the map.
\<close>

definition discard :: "format \<Rightarrow> formatter \<Rightarrow> int \<Rightarrow> int \<Rightarrow> error + format" where
  "discard this fmt start end =
     (case map_get (fmt_map this) fmt of
        None \<Rightarrow> Inr this
      | Some oldRanges \<Rightarrow>
          (case normalizeFormatRange_checked (slot_length this) fmt oldRanges
                  (Some \<lparr>startIndex = start, endIndex = end, val = None\<rparr>) of
             Inl e \<Rightarrow> Inl e
           | Inr unused \<Rightarrow> Inr this))"

section \<open>toTree\<close>

text \<open>
  A \<open>FormatItem\<close> is a range together with its formatter. A \<open>FormatTree\<close> without the
  property \<open>children\<close> is a \<open>Leaf\<close>, one with it a \<open>Node\<close>; the property \<open>formats\<close> is
  set exactly when the list is not empty.
\<close>

type_synonym FormatItem = "formatter \<times> sval frange"

datatype FormatTree =
    Leaf int int "FormatItem list"
  | Node int int "FormatItem list" "FormatTree list"

text \<open>
  The scan of \<open>toTree\<close> over the extracted copy. Its state is \<open>formats\<close>,
  \<open>columnedFormats\<close>, \<open>nextStartIndex\<close> and \<open>nextEndIndex\<close>; the ranges of one formatter
  are visited from the last index down, and \<open>kept\<close> are the ranges that
  \<open>splice(index, 1)\<close> has not removed.
\<close>

type_synonym scan_state = "FormatItem list \<times> FormatItem list \<times> int \<times> int"

definition scan_range ::
  "formatter \<Rightarrow> int \<Rightarrow> int \<Rightarrow> sval frange \<Rightarrow> sval frange list \<times> scan_state
     \<Rightarrow> sval frange list \<times> scan_state" where
  "scan_range fmt start end rng acc =
     (case acc of (kept, formats, columnedFormats, nextStart, nextEnd) \<Rightarrow>
        if startIndex rng = start \<and> endIndex rng = end then
          (if columned fmt
           then (rng # kept, formats, columnedFormats @ [(fmt, rng)], nextStart, nextEnd)
           else (kept, formats @ [(fmt, rng)], columnedFormats, nextStart, nextEnd))
        else if startIndex rng < nextStart
        then (rng # kept, formats, columnedFormats, startIndex rng, endIndex rng)
        else if startIndex rng = nextStart
        then (rng # kept, formats, columnedFormats, nextStart, max nextEnd (endIndex rng))
        else (rng # kept, formats, columnedFormats, nextStart, nextEnd))"

fun scan_formatters ::
  "int \<Rightarrow> int \<Rightarrow> range_map \<Rightarrow> scan_state \<Rightarrow> range_map \<times> scan_state" where
  "scan_formatters start end [] st = ([], st)"
| "scan_formatters start end ((fmt, ranges) # m) st =
     (case foldr (scan_range fmt start end) ranges ([], st) of
        (kept, st') \<Rightarrow>
          (case scan_formatters start end m st' of
             (m', st'') \<Rightarrow>
               ((if kept = [] \<and> ranges \<noteq> [] then m' else (fmt, kept) # m'), st'')))"

definition tree_scan :: "format \<Rightarrow> int \<Rightarrow> int \<Rightarrow> range_map \<times> scan_state" where
  "tree_scan this start end =
     scan_formatters start end (fmt_map (extractFormat this start end)) ([], [], end, start)"

definition rangeCount :: "range_map \<Rightarrow> nat" where
  "rangeCount m = sum_list (map (\<lambda>(k, v). length v) m)"

fun push :: "FormatTree \<Rightarrow> FormatTree list" where
  "push (Leaf s e formats) = [Leaf s e formats]"
| "push (Node s e formats children) =
     (if formats \<noteq> [] then [Node s e formats children] else children)"

function toTree :: "format \<Rightarrow> int \<Rightarrow> int \<Rightarrow> FormatTree" where
  "toTree this startIdx endIdx =
     (case tree_scan this startIdx endIdx of
        (cmap, formats, columnedFormats, nextStart, nextEnd) \<Rightarrow>
          (let copyFormat = \<lparr>slot_length = slot_length this, fmt_map = cmap\<rparr>
           in if rangeCount cmap > length columnedFormats
              then Node startIdx endIdx formats
                     ((if startIdx < nextStart
                       then (if columnedFormats \<noteq> []
                             then [toTree (extractFormat copyFormat startIdx nextStart)
                                     startIdx nextStart]
                             else [Leaf startIdx nextStart []])
                       else [])
                      @ push (toTree copyFormat nextStart nextEnd)
                      @ (if nextEnd < endIdx
                         then push (toTree (extractFormat copyFormat nextEnd endIdx)
                                      nextEnd endIdx)
                         else []))
              else Leaf startIdx endIdx (formats @ columnedFormats)))"
  by pat_completeness auto

section \<open>Definitions for the properties\<close>

text \<open>
  The leaf spans of a tree, in order, and what it means for a list of spans to be
  contiguous, non-overlapping, and to cover a window. \<open>chain s e\<close> says that the spans
  run from \<open>s\<close> to \<open>e\<close>, each starting where the one before ends.
\<close>

fun leaf_spans :: "FormatTree \<Rightarrow> (int \<times> int) list" where
  "leaf_spans (Leaf s e formats) = [(s, e)]"
| "leaf_spans (Node s e formats children) = concat (map leaf_spans children)"

fun contiguous :: "(int \<times> int) list \<Rightarrow> bool" where
  "contiguous [] = True"
| "contiguous [x] = True"
| "contiguous (x # y # r) = (snd x = fst y \<and> contiguous (y # r))"

definition span_set :: "int \<times> int \<Rightarrow> int set" where
  "span_set p = {fst p ..< snd p}"

fun non_overlapping :: "(int \<times> int) list \<Rightarrow> bool" where
  "non_overlapping [] = True"
| "non_overlapping (x # r) = ((\<forall>y \<in> set r. span_set x \<inter> span_set y = {}) \<and> non_overlapping r)"

fun chain :: "int \<Rightarrow> int \<Rightarrow> (int \<times> int) list \<Rightarrow> bool" where
  "chain s e [] = (s = e)"
| "chain s e (p # r) = (fst p = s \<and> fst p \<le> snd p \<and> chain (snd p) e r)"


text \<open>
  A range clipped to the window \<open>[s, e)\<close>, and the invariant of the scan: either no
  range other than whole-window ones has been kept (\<open>k\<close> counts the kept ranges) and
  \<open>nextStart\<close>, \<open>nextEnd\<close> are as initialised, or they are the bounds of a proper
  sub-window.
\<close>

definition in_window :: "int \<Rightarrow> int \<Rightarrow> 'v frange \<Rightarrow> bool" where
  "in_window s e r = (s \<le> startIndex r \<and> startIndex r < endIndex r \<and> endIndex r \<le> e)"

definition scan_inv :: "int \<Rightarrow> int \<Rightarrow> nat \<Rightarrow> scan_state \<Rightarrow> bool" where
  "scan_inv s e k st =
     (case st of (formats, cols, ns, ne) \<Rightarrow>
        (k = length cols \<and> ns = e \<and> ne = s) \<or>
        (length cols \<le> k \<and> s \<le> ns \<and> ns < ne \<and> ne \<le> e \<and> (s < ns \<or> ne < e)))"


text \<open>The stores of the scenarios.\<close>

definition bold :: formatter where
  "bold = \<lparr>name = ''bold'', ftype = Inline, overlap = False, columned = False\<rparr>"
definition italic :: formatter where
  "italic = \<lparr>name = ''italic'', ftype = Inline, overlap = False, columned = False\<rparr>"
definition vtrue :: sval where "vtrue = Plain (Prim (PBool True))"
definition scenarioD :: format where
  "scenarioD = \<lparr>slot_length = 10, fmt_map =
       [(bold, [\<lparr>startIndex = 0, endIndex = 10, val = vtrue\<rparr>]),
        (italic, [\<lparr>startIndex = 3, endIndex = 7, val = vtrue\<rparr>])]\<rparr>"


definition comment :: formatter where
  "comment = \<lparr>name = ''comment'', ftype = Inline, overlap = True, columned = False\<rparr>"

definition emptyStore :: format where
  "emptyStore = \<lparr>slot_length = 10, fmt_map = []\<rparr>"

text \<open>Scenario A: two merges of \<open>bold\<close> on a slot of length 10. Scenario B continues it.\<close>

definition scenarioA :: format where
  "scenarioA =
     merge (merge emptyStore bold
              (InlineData \<lparr>startIndex = 2, endIndex = 5, val = Some vtrue\<rparr>))
       bold (InlineData \<lparr>startIndex = 4, endIndex = 8, val = Some vtrue\<rparr>)"

definition scenarioB :: format where
  "scenarioB = stretch scenarioA 3 1"

text \<open>
  What the specification says \<open>stretch\<close> and \<open>shrink\<close> do to one range, and the
  re-normalization of every formatter's list that follows in \<open>shrink\<close>: the list is
  replaced by its normal form, and the key is dropped when that is empty.
\<close>

definition stretched :: "int \<Rightarrow> int \<Rightarrow> 'v frange \<Rightarrow> 'v frange" where
  "stretched index count r =
     (if endIndex r < index then r
      else if startIndex r \<ge> index
      then r\<lparr>startIndex := startIndex r + count, endIndex := endIndex r + count\<rparr>
      else r\<lparr>endIndex := endIndex r + count\<rparr>)"

definition shrunk :: "int \<Rightarrow> int \<Rightarrow> 'v frange \<Rightarrow> 'v frange" where
  "shrunk start count r =
     (if endIndex r \<le> start then r
      else r\<lparr>startIndex := (if startIndex r > start then max start (startIndex r - count)
                             else startIndex r),
             endIndex := max start (endIndex r - count)\<rparr>)"

definition renormalized :: "nat \<Rightarrow> range_map \<Rightarrow> range_map" where
  "renormalized slotLength m =
     filter (\<lambda>(k, rs). rs \<noteq> [])
       (map (\<lambda>(k, rs). (k, normalizeFormatRange slotLength k rs None)) m)"

text \<open>
  Dense arrays: \<open>trim\<close> removes the trailing void cells, \<open>pad\<close> extends with void cells.
  \<open>canon\<close> replaces every cell of a run by the value that starts the run (\<open>toRanges\<close>
  keeps that one), and \<open>cell_equal\<close> compares two cells by \<open>Format.equal\<close>. A plain value
  is one that is not a \<open>CleanFormatRule\<close>.
\<close>

fun trim :: "'a option list \<Rightarrow> 'a option list" where
  "trim [] = []"
| "trim (x # xs) = (if x = None \<and> trim xs = [] then [] else x # trim xs)"

definition is_plain :: "sval \<Rightarrow> bool" where
  "is_plain v = (case v of Plain p \<Rightarrow> True | Clean c \<Rightarrow> False)"

definition pad :: "nat \<Rightarrow> 'a option list \<Rightarrow> 'a option list" where
  "pad n xs = xs @ replicate (n - length xs) None"

fun canon :: "sval option \<Rightarrow> fvalue list \<Rightarrow> fvalue list" where
  "canon h [] = []"
| "canon h (None # vs) = None # canon None vs"
| "canon h (Some item # vs) =
     (case h of
        None \<Rightarrow> Some item # canon (Some item) vs
      | Some c \<Rightarrow> if equal c item then Some c # canon (Some c) vs
                  else Some item # canon (Some item) vs)"

definition cell_equal :: "fvalue \<Rightarrow> fvalue \<Rightarrow> bool" where
  "cell_equal x y =
     (case x of None \<Rightarrow> y = None
      | Some a \<Rightarrow> (case y of None \<Rightarrow> False | Some b \<Rightarrow> equal a b))"

definition roundtripCells :: "fvalue list" where
  "roundtripCells =
     [None, Some vtrue, Some vtrue, None, Some (Plain (Prim (PStr ''x'')))]"

text \<open>A store whose overlap formatter \<open>comment\<close> holds one range.\<close>

definition commentStore :: format where
  "commentStore = \<lparr>slot_length = 10, fmt_map =
      [(comment, [\<lparr>startIndex = 0, endIndex = 5, val = Plain (Prim (PStr ''a''))\<rparr>])]\<rparr>"

text \<open>
  The invariants of the store. \<open>no_empty_key\<close>: no formatter is mapped to an empty
  list. \<open>ranges_in_slot\<close>: the ranges of the inline formatters are non-empty and lie
  within the slot.
\<close>

definition no_empty_key :: "format \<Rightarrow> bool" where
  "no_empty_key this = (\<forall>(f, rs) \<in> set (fmt_map this). rs \<noteq> [])"

definition ranges_in_slot :: "format \<Rightarrow> bool" where
  "ranges_in_slot this =
     (\<forall>(f, rs) \<in> set (fmt_map this). ftype f = Inline \<longrightarrow>
        (\<forall>r \<in> set rs. 0 \<le> startIndex r \<and> startIndex r < endIndex r \<and>
                       endIndex r \<le> int (slot_length this)))"

text \<open>
  The invariant of one range list as the specification words it: the ranges are pairwise
  disjoint, sorted by \<open>startIndex\<close>, and two ranges that touch never carry equal values.
  \<open>store_invariant\<close> asks it of every formatter.
\<close>

definition range_span :: "'v frange \<Rightarrow> int set" where
  "range_span r = {startIndex r ..< endIndex r}"

fun pairwise_disjoint :: "'v frange list \<Rightarrow> bool" where
  "pairwise_disjoint [] = True"
| "pairwise_disjoint (r # rs) =
     ((\<forall>r' \<in> set rs. range_span r \<inter> range_span r' = {}) \<and> pairwise_disjoint rs)"

definition sorted_by_start :: "'v frange list \<Rightarrow> bool" where
  "sorted_by_start rs = sorted (map startIndex rs)"

fun no_equal_neighbours :: "sval frange list \<Rightarrow> bool" where
  "no_equal_neighbours [] = True"
| "no_equal_neighbours [r] = True"
| "no_equal_neighbours (r # r' # rs) =
     ((endIndex r = startIndex r' \<longrightarrow> \<not> equal (val r) (val r')) \<and>
      no_equal_neighbours (r' # rs))"

definition list_invariant :: "sval frange list \<Rightarrow> bool" where
  "list_invariant rs = (pairwise_disjoint rs \<and> sorted_by_start rs \<and> no_equal_neighbours rs)"

definition store_invariant :: "format \<Rightarrow> bool" where
  "store_invariant this = (\<forall>(f, rs) \<in> set (fmt_map this). list_invariant rs)"

text \<open>
  The normal form that \<open>toRanges\<close> produces: \<open>normal_from b pv rs\<close> holds when the
  ranges of \<open>rs\<close> are non-empty, start at or after \<open>b\<close>, each at or after the end of the
  one before, and a range that touches its predecessor (value \<open>pv\<close>) carries a different
  value. \<open>store_normal\<close>: the keys are distinct, the list of an inline formatter without
  overlap is in normal form or is a single range (\<open>merge\<close> stores the first range of a
  formatter as it is given), and a block formatter without overlap has at most one range.
\<close>

fun normal_from :: "int \<Rightarrow> sval option \<Rightarrow> sval frange list \<Rightarrow> bool" where
  "normal_from b pv [] = True"
| "normal_from b pv (r # rs) =
     (b \<le> startIndex r \<and> startIndex r < endIndex r \<and>
      (case pv of None \<Rightarrow> True | Some v \<Rightarrow> startIndex r = b \<longrightarrow> \<not> equal v (val r)) \<and>
      normal_from (endIndex r) (Some (val r)) rs)"

definition ranges_normal :: "sval frange list \<Rightarrow> bool" where
  "ranges_normal rs = (case rs of [] \<Rightarrow> True | r # _ \<Rightarrow> normal_from (startIndex r) None rs)"

definition entry_normal :: "formatter \<Rightarrow> sval frange list \<Rightarrow> bool" where
  "entry_normal f rs =
     (\<not> overlap f \<longrightarrow>
        (if ftype f = Block then length rs \<le> 1 else ranges_normal rs \<or> length rs \<le> 1))"

definition store_normal :: "format \<Rightarrow> bool" where
  "store_normal this =
     (distinct (map fst (fmt_map this)) \<and>
      (\<forall>(f, rs) \<in> set (fmt_map this). entry_normal f rs))"

definition map_normal :: "range_map \<Rightarrow> bool" where
  "map_normal m = (distinct (map fst m) \<and> (\<forall>(f, rs) \<in> set m. entry_normal f rs))"

text \<open>
  \<open>key_update P this f r\<close>: the store \<open>r\<close> is \<open>this\<close>, or \<open>this\<close> without the key \<open>f\<close>, or
  \<open>this\<close> with \<open>f\<close> set to a list that satisfies \<open>P\<close>.
\<close>

definition key_update ::
  "(sval frange list \<Rightarrow> bool) \<Rightarrow> format \<Rightarrow> formatter \<Rightarrow> format \<Rightarrow> bool" where
  "key_update P this f r =
     (r = this \<or> r = this\<lparr>fmt_map := map_delete (fmt_map this) f\<rparr> \<or>
      (\<exists>v. P v \<and> r = this\<lparr>fmt_map := map_set (fmt_map this) f v\<rparr>))"

text \<open>
  \<open>stored_ranges\<close>: the ranges that the store holds for a formatter (none when the
  formatter is not a key). \<open>within_slot\<close>: a range is non-empty and lies within the slot.
  \<open>exceeds\<close>: some range ends beyond the greatest length of an array.
\<close>

definition stored_ranges :: "format \<Rightarrow> formatter \<Rightarrow> sval frange list" where
  "stored_ranges this f = (case map_get (fmt_map this) f of None \<Rightarrow> [] | Some rs \<Rightarrow> rs)"

definition within_slot :: "nat \<Rightarrow> 'v frange \<Rightarrow> bool" where
  "within_slot len r = (0 \<le> startIndex r \<and> startIndex r < endIndex r \<and> endIndex r \<le> int len)"

definition exceeds :: "'v frange list \<Rightarrow> bool" where
  "exceeds ranges = (\<exists>r \<in> set ranges. max_array_length < endIndex r)"

text \<open>
  Stores for the examples: \<open>shrinkStore\<close> holds two \<open>bold\<close> ranges that a deletion of
  \<open>[3,5)\<close> makes touch, an \<open>italic\<close> range that it empties, and ranges of two values
  of the overlap formatter \<open>comment\<close>; \<open>normalStore\<close> holds
  ranges of an inline formatter, of the block formatter \<open>align\<close> and of the overlap
  formatter \<open>comment\<close>; \<open>gapStore\<close> holds two \<open>bold\<close> ranges with a gap.
\<close>

definition align :: formatter where
  "align = \<lparr>name = ''align'', ftype = Block, overlap = False, columned = False\<rparr>"

definition shrinkStore :: format where
  "shrinkStore = \<lparr>slot_length = 10, fmt_map =
      [(bold, [\<lparr>startIndex = 0, endIndex = 3, val = vtrue\<rparr>,
               \<lparr>startIndex = 5, endIndex = 8, val = vtrue\<rparr>]),
       (italic, [\<lparr>startIndex = 3, endIndex = 5, val = vtrue\<rparr>]),
       (comment, [\<lparr>startIndex = 0, endIndex = 3, val = Plain (Prim (PStr ''a''))\<rparr>,
                  \<lparr>startIndex = 2, endIndex = 6, val = Plain (Prim (PStr ''b''))\<rparr>,
                  \<lparr>startIndex = 5, endIndex = 8, val = Plain (Prim (PStr ''a''))\<rparr>])]\<rparr>"

definition normalStore :: format where
  "normalStore = \<lparr>slot_length = 10, fmt_map =
      [(bold, [\<lparr>startIndex = 0, endIndex = 3, val = vtrue\<rparr>,
               \<lparr>startIndex = 5, endIndex = 8, val = vtrue\<rparr>]),
       (align, [\<lparr>startIndex = 0, endIndex = 10, val = Plain (Prim (PStr ''left''))\<rparr>]),
       (comment, [\<lparr>startIndex = 0, endIndex = 5, val = Plain (Prim (PStr ''a''))\<rparr>])]\<rparr>"

definition gapStore :: format where
  "gapStore = \<lparr>slot_length = 10, fmt_map =
      [(bold, [\<lparr>startIndex = 0, endIndex = 2, val = vtrue\<rparr>,
               \<lparr>startIndex = 4, endIndex = 6, val = vtrue\<rparr>])]\<rparr>"

text \<open>
  \<open>with_value v rs\<close>: the ranges of \<open>rs\<close> whose value \<open>Format.equal\<close> identifies with
  \<open>v\<close>. \<open>grouped rs m\<close>: \<open>m\<close> groups \<open>rs\<close> by value, that is, its keys are pairwise
  different under \<open>Format.equal\<close>, the group of a key holds the ranges of \<open>rs\<close> with that
  value, in their order, and is not empty, and every range of \<open>rs\<close> has its value among
  the keys.
\<close>

definition with_value :: "sval \<Rightarrow> sval frange list \<Rightarrow> sval frange list" where
  "with_value v rs = filter (\<lambda>r. equal v (val r)) rs"

definition grouped :: "sval frange list \<Rightarrow> (sval \<times> sval frange list) list \<Rightarrow> bool" where
  "grouped rs m =
     (sorted_wrt (\<lambda>a b. \<not> equal (fst a) (fst b)) m \<and>
      (\<forall>(k, g) \<in> set m. g \<noteq> [] \<and> g = with_value k rs) \<and>
      (\<forall>r \<in> set rs. \<exists>(k, g) \<in> set m. equal k (val r)))"

section \<open>The scan of toTree and its termination\<close>

lemma extract_range_in_window:
  "r' \<in> set (extract_range s e r) \<Longrightarrow> in_window s e r'"
  by (auto simp: extract_range_def in_window_def Let_def split: if_splits)

lemma extractFormatRanges_in_window:
  "r \<in> set (extractFormatRangesByFormatter this s e f) \<Longrightarrow> in_window s e r"
  by (auto simp: extractFormatRangesByFormatter_def dest: extract_range_in_window)

lemma set_update_subset: "set (AList.update k v m) \<subseteq> insert (k, v) (set m)"
  by (induction m) auto

lemma extract_fold_inv:
  "(\<forall>(k, rs) \<in> set m0. P rs) \<Longrightarrow> (\<And>k. g k \<noteq> [] \<Longrightarrow> P (h (g k))) \<Longrightarrow>
   \<forall>(k, rs) \<in> set (foldl (\<lambda>m (key, ranges). (let ex = g key in if ex \<noteq> [] then map_set m key (h ex) else m)) m0 entries). P rs"
proof (induction entries arbitrary: m0)
  case Nil
  then show ?case by simp
next
  case (Cons a entries)
  obtain key ranges where a: "a = (key, ranges)" by (cases a)
  have "\<forall>(k, rs) \<in> set (let ex = g key in if ex \<noteq> [] then map_set m0 key (h ex) else m0). P rs"
    using Cons.prems set_update_subset[of key "h (g key)" m0]
    by (auto simp: Let_def map_set_def)
  from Cons.IH[OF this Cons.prems(2)] show ?case by (simp add: a)
qed

lemma extractFormat_in_window:
  "(k, rs) \<in> set (fmt_map (extractFormat this s e)) \<Longrightarrow> r \<in> set rs \<Longrightarrow> in_window s e r"
proof -
  have "\<forall>(k, rs) \<in> set (fmt_map (extractFormat this s e)). \<forall>r \<in> set rs. in_window s e r"
    unfolding extractFormat_def
    using extract_fold_inv[where ?m0.0 = "[]" and P = "\<lambda>rs. \<forall>r \<in> set rs. in_window s e r"
        and g = "extractFormatRangesByFormatter this s e" and h = "\<lambda>x. x" and entries = "fmt_map this"]
    by (simp add: extractFormatRanges_in_window)
  then show "(k, rs) \<in> set (fmt_map (extractFormat this s e)) \<Longrightarrow> r \<in> set rs \<Longrightarrow> in_window s e r"
    by blast
qed

lemma scan_range_inv:
  assumes "in_window s e r" and "scan_inv s e (k + length kept) st"
    and "scan_range f s e r (kept, st) = (kept', st')"
  shows "scan_inv s e (k + length kept') st'"
  using assms
  by (cases st) (auto simp: scan_range_def scan_inv_def in_window_def split: if_splits)

lemma scan_foldr_inv:
  "\<forall>r \<in> set rs. in_window s e r \<Longrightarrow> scan_inv s e k st \<Longrightarrow>
   foldr (scan_range f s e) rs ([], st) = (kept, st') \<Longrightarrow> scan_inv s e (k + length kept) st'"
proof (induction rs arbitrary: kept st')
  case Nil
  then show ?case by simp
next
  case (Cons r rs)
  obtain kept0 st0 where f0: "foldr (scan_range f s e) rs ([], st) = (kept0, st0)"
    by (cases "foldr (scan_range f s e) rs ([], st)")
  have "scan_inv s e (k + length kept0) st0" using Cons.IH[OF _ Cons.prems(2) f0] Cons.prems(1) by simp
  moreover have "scan_range f s e r (kept0, st0) = (kept, st')" using Cons.prems(3) f0 by simp
  ultimately show ?case using scan_range_inv[of s e r k kept0 st0 f kept st'] Cons.prems(1) by simp
qed

lemma scan_formatters_inv:
  "\<forall>(f, rs) \<in> set m. \<forall>r \<in> set rs. in_window s e r \<Longrightarrow> scan_inv s e k st \<Longrightarrow>
   scan_formatters s e m st = (m', st') \<Longrightarrow> scan_inv s e (k + rangeCount m') st'"
proof (induction m arbitrary: k st m' st')
  case Nil
  then show ?case by (simp add: rangeCount_def)
next
  case (Cons a m)
  obtain f rs where a: "a = (f, rs)" by (cases a)
  obtain kept st1 where f1: "foldr (scan_range f s e) rs ([], st) = (kept, st1)"
    by (cases "foldr (scan_range f s e) rs ([], st)")
  obtain m2 st2 where f2: "scan_formatters s e m st1 = (m2, st2)"
    by (cases "scan_formatters s e m st1")
  have i1: "scan_inv s e (k + length kept) st1"
    using scan_foldr_inv[OF _ Cons.prems(2) f1] Cons.prems(1) a by auto
  have i2: "scan_inv s e (k + length kept + rangeCount m2) st2"
    using Cons.IH[OF _ i1 f2] Cons.prems(1) by auto
  show ?case using Cons.prems(3) i2 a f1 f2
    by (auto simp: rangeCount_def add.assoc split: if_splits)
qed

lemma tree_scan_bounds:
  assumes "(cmap, formats, cols, ns, ne) = tree_scan this s e"
    and "rangeCount cmap > length cols"
  shows "s \<le> ns \<and> ns < ne \<and> ne \<le> e \<and> (s < ns \<or> ne < e)"
proof -
  have "scan_inv s e (0 + rangeCount cmap) (formats, cols, ns, ne)"
    using scan_formatters_inv[of "fmt_map (extractFormat this s e)" s e 0 "([], [], e, s)" cmap "(formats, cols, ns, ne)"]
      assms(1)[symmetric] extractFormat_in_window[of _ _ this s e]
    by (auto simp: tree_scan_def scan_inv_def)
  then show ?thesis using assms(2) by (auto simp: scan_inv_def)
qed

termination toTree
proof (relation "measure (\<lambda>(this, s, e). nat (e - s))", goal_cases)
  case 1
  then show ?case by simp
next
  case (2 this s e cmap y formats ya cols yb ns ne copy)
  then have eq: "(cmap, formats, cols, ns, ne) = tree_scan this s e" by simp
  from tree_scan_bounds[OF eq] 2 show ?case by simp
next
  case (3 this s e cmap y formats ya cols yb ns ne copy)
  then have eq: "(cmap, formats, cols, ns, ne) = tree_scan this s e" by simp
  from tree_scan_bounds[OF eq] 3 show ?case by auto
next
  case (4 this s e cmap y formats ya cols yb ns ne copy)
  then have eq: "(cmap, formats, cols, ns, ne) = tree_scan this s e" by simp
  from tree_scan_bounds[OF eq] 4 show ?case by auto
qed

declare toTree.simps [simp del]

section \<open>Tree partition\<close>

lemma chain_append: "chain s m xs \<Longrightarrow> chain m e ys \<Longrightarrow> chain s e (xs @ ys)"
  by (induction xs arbitrary: s) auto

lemma chain_le: "chain s e sp \<Longrightarrow> s \<le> e"
proof (induction sp arbitrary: s)
  case Nil
  then show ?case by simp
next
  case (Cons p sp)
  then have "fst p = s" "fst p \<le> snd p" "snd p \<le> e" by auto
  then show ?case by linarith
qed

lemma chain_bounds:
  "chain s e sp \<Longrightarrow> p \<in> set sp \<Longrightarrow> s \<le> fst p \<and> fst p \<le> snd p \<and> snd p \<le> e"
proof (induction sp arbitrary: s)
  case Nil
  then show ?case by simp
next
  case (Cons q sp)
  have q: "fst q = s" "fst q \<le> snd q" "chain (snd q) e sp" using Cons.prems(1) by auto
  show ?case
  proof (cases "p = q")
    case True
    then show ?thesis using q chain_le[OF q(3)] by simp
  next
    case False
    then have "p \<in> set sp" using Cons.prems(2) by simp
    from Cons.IH[OF q(3) this] q show ?thesis by linarith
  qed
qed

lemma chain_contiguous: "chain s e sp \<Longrightarrow> contiguous sp"
  by (induction sp arbitrary: s rule: contiguous.induct) auto

lemma chain_non_overlapping: "chain s e sp \<Longrightarrow> non_overlapping sp"
proof (induction sp arbitrary: s)
  case Nil
  then show ?case by simp
next
  case (Cons q sp)
  have q: "chain (snd q) e sp" using Cons.prems by simp
  have "\<forall>y \<in> set sp. span_set q \<inter> span_set y = {}"
  proof
    fix y assume "y \<in> set sp"
    from chain_bounds[OF q this] show "span_set q \<inter> span_set y = {}"
      by (auto simp: span_set_def)
  qed
  then show ?case using Cons.IH[OF q] by simp
qed

lemma chain_union: "chain s e sp \<Longrightarrow> (\<Union>p \<in> set sp. span_set p) = {s ..< e}"
proof (induction sp arbitrary: s)
  case Nil
  then show ?case by simp
next
  case (Cons q sp)
  have q: "fst q = s" "fst q \<le> snd q" "chain (snd q) e sp" using Cons.prems by auto
  have "snd q \<le> e" using chain_le[OF q(3)] .
  moreover have "(\<Union>p \<in> set sp. span_set p) = {snd q ..< e}" using Cons.IH[OF q(3)] .
  moreover have "span_set q = {s ..< snd q}" using q by (simp add: span_set_def)
  ultimately have "(\<Union>p \<in> set (q # sp). span_set p) = {s ..< snd q} \<union> {snd q ..< e}"
    by simp
  also have "\<dots> = {s ..< e}" using q \<open>snd q \<le> e\<close> by auto
  finally show ?case .
qed

lemma push_leaf_spans: "concat (map leaf_spans (push t)) = leaf_spans t"
  by (cases t) auto

lemma toTree_chain: "s \<le> e \<Longrightarrow> chain s e (leaf_spans (toTree this s e))"
proof (induction this s e rule: toTree.induct)
  case (1 this s e)
  obtain cmap formats cols ns ne where sc: "(cmap, formats, cols, ns, ne) = tree_scan this s e"
    by (metis prod_cases5)
  define copy where "copy = \<lparr>slot_length = slot_length this, fmt_map = cmap\<rparr>"
  show ?case
  proof (cases "rangeCount cmap > length cols")
    case False
    then show ?thesis using sc[symmetric] "1.prems" by (simp add: toTree.simps[of this s e])
  next
    case True
    from tree_scan_bounds[OF sc True]
    have b: "s \<le> ns" "ns < ne" "ne \<le> e" by auto
    define lead where "lead = (if s < ns
                       then (if cols \<noteq> []
                             then [toTree (extractFormat copy s ns) s ns]
                             else [Leaf s ns []])
                       else [])"
    have l: "chain s ns (concat (map leaf_spans lead))"
    proof (cases "s < ns")
      case False
      then show ?thesis using b by (simp add: lead_def)
    next
      case sn: True
      show ?thesis
      proof (cases "cols = []")
        case True
        then show ?thesis using sn by (simp add: lead_def)
      next
        case False
        have "chain s ns (leaf_spans (toTree (extractFormat copy s ns) s ns))"
          using "1.IH"(1)[OF sc refl refl refl copy_def True sn False] sn by simp
        then show ?thesis using sn False by (simp add: lead_def)
      qed
    qed
    have m: "chain ns ne (leaf_spans (toTree copy ns ne))"
      using "1.IH"(2)[OF sc refl refl refl copy_def True] b by simp
    define trail where "trail = (if ne < e then push (toTree (extractFormat copy ne e) ne e) else [])"
    have t: "chain ne e (concat (map leaf_spans trail))"
    proof (cases "ne < e")
      case False
      then show ?thesis using b by (simp add: trail_def)
    next
      case ne: True
      have "chain ne e (leaf_spans (toTree (extractFormat copy ne e) ne e))"
        using "1.IH"(3)[OF sc refl refl refl copy_def True ne] ne by simp
      then show ?thesis using ne by (simp add: trail_def push_leaf_spans)
    qed
    have "toTree this s e = Node s e formats (lead @ push (toTree copy ns ne) @ trail)"
      using sc[symmetric] True
      by (simp add: toTree.simps[of this s e] copy_def lead_def trail_def Let_def)
    then show ?thesis
      using chain_append[OF l chain_append[OF _ t]] m
      by (simp add: push_leaf_spans)
  qed
qed


text \<open>
  C1. For every store and every window with \<open>s \<le> e\<close>, the leaf spans of
  \<open>toTree(s, e)\<close>, read in order, are contiguous, pairwise non-overlapping, and their
  union is exactly \<open>[s, e)\<close>.
\<close>

theorem toTree_leaf_partition:
  "s \<le> e \<Longrightarrow>
     contiguous (leaf_spans (toTree this s e)) \<and>
     non_overlapping (leaf_spans (toTree this s e)) \<and>
     (\<Union>p \<in> set (leaf_spans (toTree this s e)). span_set p) = {s ..< e}"
  using toTree_chain[of s e this] chain_contiguous chain_non_overlapping chain_union by blast

theorem toTree_leaf_partition_witness:
  "(0::int) \<le> 10 \<and>
   leaf_spans (toTree scenarioD 0 10) = [(0, 3), (3, 7), (7, 10)] \<and>
   contiguous (leaf_spans (toTree scenarioD 0 10)) \<and>
   non_overlapping (leaf_spans (toTree scenarioD 0 10)) \<and>
   (\<Union>p \<in> set (leaf_spans (toTree scenarioD 0 10)). span_set p) = {0 ..< 10}"
proof -
  have ev: "leaf_spans (toTree scenarioD 0 10) = [(0, 3), (3, 7), (7, 10)]"
    by code_simp
  have le: "(0::int) \<le> 10" by simp
  from toTree_leaf_partition[OF le, of scenarioD] ev show ?thesis by simp
qed

section \<open>Scenarios of merge and stretch\<close>

text \<open>
  C4. With slot length 10 and the non-overlap inline formatter \<open>bold\<close>,
  \<open>merge(bold, {2,5,true})\<close> followed by \<open>merge(bold, {4,8,true})\<close> leaves exactly the
  stored range \<open>{2,8,true}\<close> for \<open>bold\<close>: the new range is painted over the old one
  in the dense array, which is then flattened into one coalesced run.
\<close>

theorem merge_scenario_A:
  "fmt_map scenarioA = [(bold, [\<lparr>startIndex = 2, endIndex = 8, val = vtrue\<rparr>])] \<and>
   tileRanges 10 [\<lparr>startIndex = 2, endIndex = 5, val = Some vtrue\<rparr>,
                  \<lparr>startIndex = 4, endIndex = 8, val = Some vtrue\<rparr>]
     = [None, None, Some vtrue, Some vtrue, Some vtrue, Some vtrue, Some vtrue, Some vtrue] \<and>
   toRanges [None, None, Some vtrue, Some vtrue, Some vtrue, Some vtrue, Some vtrue, Some vtrue]
     = [\<lparr>startIndex = 2, endIndex = 8, val = vtrue\<rparr>]"
  by code_simp

lemma stretch_range_cases: "stretch_range index count = stretched index count"
  by (rule ext) (simp add: stretch_range_def stretched_def Let_def)

lemma scenarioB_eval:
  "fmt_map scenarioB = [(bold, [\<lparr>startIndex = 2, endIndex = 9, val = vtrue\<rparr>])]"
  by code_simp

text \<open>
  C5. \<open>stretch(index, count)\<close> maps every stored range as follows: a range with
  \<open>endIndex < index\<close> is untouched; otherwise \<open>count\<close> is added to its \<open>endIndex\<close>, and
  also to its \<open>startIndex\<close> when \<open>startIndex \<ge> index\<close>. Continuing scenario A,
  \<open>stretch(3,1)\<close> turns \<open>{2,8,true}\<close> into \<open>{2,9,true}\<close>.
\<close>

theorem stretch_spec:
  "fmt_map (stretch this index count)
     = map (\<lambda>(k, rs). (k, map (stretched index count) rs)) (fmt_map this) \<and>
   slot_length (stretch this index count) = slot_length this \<and>
   fmt_map scenarioB = [(bold, [\<lparr>startIndex = 2, endIndex = 9, val = vtrue\<rparr>])]"
  using scenarioB_eval by (simp add: stretch_def stretch_range_cases)

section \<open>CleanFormatRule on inline formatters\<close>

text \<open>
  C2. Setting \<open>true\<close> on \<open>[2,5)\<close> for the non-overlap inline formatter \<open>bold\<close> and
  then merging \<open>CleanFormatRule(true)\<close> over the same range leaves the range in place:
  the non-overlap branch of \<open>normalizeFormatRange\<close> compares the stored value with the
  rule object itself, which is never equal to a plain value.
\<close>

theorem clean_after_set_keeps_format:
  "fmt_map (merge (merge emptyStore bold
                     (InlineData \<lparr>startIndex = 2, endIndex = 5, val = Some vtrue\<rparr>))
              bold (InlineData \<lparr>startIndex = 2, endIndex = 5,
                                val = Some (Clean (Some (Prim (PBool True))))\<rparr>))
     = [(bold, [\<lparr>startIndex = 2, endIndex = 5, val = vtrue\<rparr>])]"
  by code_simp

lemma plain_value_never_equals_rule:
  "equal (Plain (Prim p)) (Clean c) = False"
  by (simp add: equal_def)

text \<open>
  The first insertion of a formatter: \<open>merge\<close> only tests \<open>isVoid\<close>, so a
  \<open>CleanFormatRule\<close> merged on a formatter with no stored ranges is stored as if it
  were a value.
\<close>

lemma merge_clean_without_ranges_stores_rule:
  "fmt_map (merge emptyStore comment
              (InlineData \<lparr>startIndex = 2, endIndex = 5,
                            val = Some (Clean (Some (Prim (PStr ''x''))))\<rparr>))
     = [(comment, [\<lparr>startIndex = 2, endIndex = 5,
                    val = Clean (Some (Prim (PStr ''x'')))\<rparr>])] \<and>
   merge emptyStore comment
     (InlineData \<lparr>startIndex = 2, endIndex = 5,
                   val = Some (Clean (Some (Prim (PStr ''x''))))\<rparr>) \<noteq> emptyStore"
  by code_simp

section \<open>shrink\<close>

lemma shrink_range_cases: "shrink_range start count = shrunk start count"
  by (rule ext) (simp add: shrink_range_def shrunk_def Let_def)

lemma update_fresh_middle:
  "k \<notin> fst ` set p \<Longrightarrow> AList.update k v (p @ (k, w) # m) = p @ (k, v) # m"
  by (induction p) auto

lemma delete_fresh_middle:
  "k \<notin> fst ` set p \<Longrightarrow> k \<notin> fst ` set m \<Longrightarrow> AList.delete k (p @ (k, w) # m) = p @ m"
  by (induction p) (force simp: AList.delete_eq filter_id_conv)+

lemma map_get_fresh_middle:
  "k \<notin> fst ` set p \<Longrightarrow> map_get (p @ (k, w) # m) k = Some w"
  unfolding map_get_def by (induction p) auto

lemma map_fst_map_snd: "map fst (map (\<lambda>(k, v). (k, f k v)) m) = map fst m"
  by (induction m) auto

lemma renormalize_fold:
  "distinct (map fst (p @ m)) \<Longrightarrow>
   foldl (renormalize_key len) (p @ m) (map fst m) = p @ renormalized len m"
proof (induction m arbitrary: p)
  case Nil
  then show ?case by (simp add: renormalized_def)
next
  case (Cons a m)
  obtain k rs where a: "a = (k, rs)" by (cases a)
  have fresh: "k \<notin> fst ` set p" "k \<notin> fst ` set m" using Cons.prems a by auto
  let ?n = "normalizeFormatRange len k rs None"
  show ?case
  proof (cases "?n = []")
    case True
    have step: "renormalize_key len (p @ a # m) k = p @ m"
      using fresh True a
      by (simp add: renormalize_key_def map_delete_def map_get_fresh_middle
          delete_fresh_middle)
    have "distinct (map fst (p @ m))" using Cons.prems by simp
    from Cons.IH[OF this] step True a show ?thesis by (simp add: renormalized_def)
  next
    case False
    have step: "renormalize_key len (p @ a # m) k = (p @ [(k, ?n)]) @ m"
      using fresh False a
      by (simp add: renormalize_key_def map_set_def map_get_fresh_middle
          update_fresh_middle)
    have "distinct (map fst ((p @ [(k, ?n)]) @ m))" using Cons.prems a by simp
    from Cons.IH[OF this] step False a show ?thesis by (simp add: renormalized_def)
  qed
qed

lemma shrink_map:
  assumes "distinct (map fst (fmt_map this))"
  shows "fmt_map (shrink this start count)
     = renormalized (slot_length this)
         (map (\<lambda>(k, rs). (k, map (shrunk start count) rs)) (fmt_map this))"
proof -
  let ?m = "map (\<lambda>(k, values). (k, map (shrink_range start count) values)) (fmt_map this)"
  have "map fst ?m = map fst (fmt_map this)" by (rule map_fst_map_snd)
  then have "distinct (map fst ?m)" using assms by (simp only:)
  then have "distinct (map fst ([] @ ?m))" by (simp only: append_Nil)
  from renormalize_fold[OF this] show ?thesis
    by (simp add: shrink_def Let_def shrink_range_cases)
qed

lemma scenarioC_eval:
  "fmt_map (shrink scenarioB 3 2)
     = [(bold, [\<lparr>startIndex = 2, endIndex = 7, val = vtrue\<rparr>])]"
  by code_simp

section \<open>Round trip of toRanges and tileRanges\<close>

lemma set_length_ge: "length xs \<le> n \<Longrightarrow> set_length n xs = xs @ replicate (n - length xs) None"
  by (simp add: set_length_def)

lemma tile_step_append:
  assumes "length xs \<le> s" and "s < e"
  shows "tile_step xs \<lparr>startIndex = int s, endIndex = int e, val = v\<rparr>
           = pad s xs @ replicate (e - s) v"
proof -
  have m: "nat (max (int (length xs)) (int e)) = e" using assms by simp
  have sl: "set_length e xs = xs @ replicate (e - length xs) None"
    using assms by (simp add: set_length_ge)
  have len: "length (set_length e xs) = e" using assms by (simp add: sl)
  have tk: "take s (xs @ replicate (e - length xs) None) = xs @ replicate (s - length xs) None"
    using assms by (simp add: min_def)
  show ?thesis
    unfolding tile_step_def
    using assms by (simp add: m fill_def rel_index_def len Let_def sl tk pad_def del: replicate_add)
qed

lemma trim_last: "vs \<noteq> [] \<Longrightarrow> last vs \<noteq> None \<Longrightarrow> trim vs = vs"
proof (induction vs)
  case Nil
  then show ?case by simp
next
  case (Cons x vs)
  show ?case
  proof (cases "vs = []")
    case True
    then show ?thesis using Cons.prems by simp
  next
    case False
    then have "trim vs = vs" using Cons by simp
    then show ?thesis using False by simp
  qed
qed

lemma equal_plain: "equal (Plain a) (Plain b) \<Longrightarrow> a = b"
proof (cases a; cases b)
  fix r1 r2 assume a: "a = Rec r1" and b: "b = Rec r2" and e: "equal (Plain a) (Plain b)"
  show "a = b"
  proof (cases "r1 = r2")
    case True
    then show ?thesis using a b by simp
  next
    case False
    let ?l = "fmmap (\<lambda>p. Some (Prim p)) r1" and ?r = "fmmap (\<lambda>p. Some (Prim p)) r2"
    from e False a b have c: "fcard (fmdom r1) = fcard (fmdom r2)"
      and all: "\<forall>k. k |\<in>| fmdom r1 \<longrightarrow> k |\<in>| fmdom r2 \<and> fmlookup ?r k = fmlookup ?l k"
      by (auto simp: equal_def split: if_splits)
    have sub: "fmdom r1 |\<subseteq>| fmdom r2" using all by auto
    have "fmdom r1 = fmdom r2"
      using sub c by (metis fcard_seteq order_refl)
    have "fmlookup r1 k = fmlookup r2 k" for k
    proof (cases "k |\<in>| fmdom r1")
      case True
      then have "map_option (\<lambda>p. Some (Prim p)) (fmlookup r2 k) = map_option (\<lambda>p. Some (Prim p)) (fmlookup r1 k)"
        using all by simp
      then show ?thesis by (cases "fmlookup r1 k"; cases "fmlookup r2 k") auto
    next
      case False
      then show ?thesis using \<open>fmdom r1 = fmdom r2\<close> by (metis fmdom_notD)
    qed
    then have "r1 = r2" by (rule fmap_ext)
    then show ?thesis using False by simp
  qed
qed (auto simp: equal_def split: if_splits)

lemma trim_canon_Nil: "trim (canon h vs) = [] \<longleftrightarrow> trim vs = []"
  by (induction h vs rule: canon.induct) (auto split: option.splits)

lemma length_canon: "length (canon h vs) = length vs"
  by (induction h vs rule: canon.induct) (auto split: option.splits)

lemma equal_refl: "equal a a"
  by (simp add: equal_def)

lemma canon_cell_equal: "list_all2 cell_equal (canon h vs) vs"
  by (induction h vs rule: canon.induct) (auto simp: cell_equal_def equal_refl split: option.splits)

lemma canon_plain:
  "\<forall>x \<in> set vs. \<forall>a. x = Some a \<longrightarrow> is_plain a \<Longrightarrow>
   (\<forall>c. h = Some c \<longrightarrow> is_plain c) \<Longrightarrow> canon h vs = vs"
proof (induction h vs rule: canon.induct)
  case (3 h item vs)
  have pi: "is_plain item" using 3 by simp
  show ?case
  proof (cases h)
    case None
    then show ?thesis using 3 pi by simp
  next
    case (Some c)
    then have pc: "is_plain c" using 3 by simp
    show ?thesis
    proof (cases "equal c item")
      case True
      then have "c = item" using pc pi equal_plain
        by (cases c; cases item) (auto simp: is_plain_def)
      then show ?thesis using 3 Some True pi by simp
    next
      case False
      then show ?thesis using 3 Some pi by simp
    qed
  qed
qed simp_all

lemma last_canon: "vs \<noteq> [] \<Longrightarrow> last vs \<noteq> None \<Longrightarrow> last (canon h vs) \<noteq> None"
proof (induction h vs rule: canon.induct)
  case (1 h)
  then show ?case by simp
next
  case (2 h vs)
  show ?case
  proof (cases "vs = []")
    case True
    then show ?thesis using 2 by simp
  next
    case False
    then have "canon None vs \<noteq> []" using length_canon[of None vs] by auto
    then show ?thesis using 2 False by simp
  qed
next
  case (3 h item vs)
  show ?case
  proof (cases "vs = []")
    case True
    then show ?thesis by (simp split: option.splits)
  next
    case False
    then have "canon x vs \<noteq> []" for x using length_canon[of x vs] by auto
    then show ?thesis using 3 False by (auto split: option.splits)
  qed
qed

lemma roundtrip_loop:
  "(cur = None \<longrightarrow> length xs \<le> i \<longrightarrow>
      foldl tile_step xs (map lift (toRanges_loop i vs cur))
        = (if trim vs = [] then xs else pad i xs @ trim (canon None vs))) \<and>
   (\<forall>c s. cur = Some c \<longrightarrow> startIndex c = int s \<longrightarrow> endIndex c = int i \<longrightarrow>
      s < i \<longrightarrow> length xs \<le> s \<longrightarrow>
      foldl tile_step xs (map lift (toRanges_loop i vs cur))
        = pad s xs @ replicate (i - s) (Some (val c)) @ trim (canon (Some (val c)) vs))"
proof (induction vs arbitrary: i cur xs)
  case Nil
  show ?case
  proof (intro conjI impI allI)
    fix c s
    assume "cur = Some c" "startIndex c = int s" "endIndex c = int i" "s < i" "length xs \<le> s"
    then show "foldl tile_step xs (map lift (toRanges_loop i [] cur))
        = pad s xs @ replicate (i - s) (Some (val c)) @ trim (canon (Some (val c)) [])"
      using tile_step_append[of xs s i "Some (val c)"] by (simp add: lift_def)
  qed simp
next
  case (Cons x vs)
  note IH = Cons.IH
  show ?case
  proof (cases x)
    case None
    show ?thesis
    proof (intro conjI impI allI)
      assume "cur = None" "length xs \<le> i"
      then have "foldl tile_step xs (map lift (toRanges_loop (Suc i) vs None))
          = (if trim vs = [] then xs else pad (Suc i) xs @ trim (canon None vs))"
        using IH[of None xs "Suc i"] by simp
      moreover have "pad (Suc i) xs = pad i xs @ [None]"
        using \<open>length xs \<le> i\<close> by (simp add: pad_def Suc_diff_le replicate_append_same)
      ultimately show "foldl tile_step xs (map lift (toRanges_loop i (x # vs) cur))
          = (if trim (x # vs) = [] then xs else pad i xs @ trim (canon None (x # vs)))"
        using None \<open>cur = None\<close> by (simp add: trim_canon_Nil)
    next
      fix c s
      assume a: "cur = Some c" "startIndex c = int s" "endIndex c = int i" "s < i" "length xs \<le> s"
      let ?xs' = "pad s xs @ replicate (i - s) (Some (val c))"
      have lc: "lift c = \<lparr>startIndex = int s, endIndex = int i, val = Some (val c)\<rparr>"
        using a by (simp add: lift_def)
      have st: "tile_step xs (lift c) = ?xs'"
        using tile_step_append[of xs s i "Some (val c)"] a lc by simp
      have len: "length ?xs' = i" using a by (simp add: pad_def)
      have "foldl tile_step ?xs' (map lift (toRanges_loop (Suc i) vs None))
          = (if trim vs = [] then ?xs' else pad (Suc i) ?xs' @ trim (canon None vs))"
        using IH[of None ?xs' "Suc i"] len by simp
      moreover have "pad (Suc i) ?xs' = ?xs' @ [None]" using len by (simp add: pad_def)
      ultimately show "foldl tile_step xs (map lift (toRanges_loop i (x # vs) cur))
          = pad s xs @ replicate (i - s) (Some (val c)) @ trim (canon (Some (val c)) (x # vs))"
        using None a st by (simp add: trim_canon_Nil)
    qed
  next
    case (Some item)
    let ?n = "\<lparr>startIndex = int i, endIndex = int i + 1, val = item\<rparr>"
    have new: "length ys \<le> i \<Longrightarrow> foldl tile_step ys (map lift (toRanges_loop (Suc i) vs (Some ?n)))
          = pad i ys @ [Some item] @ trim (canon (Some item) vs)" for ys
      using IH[of "Some ?n" ys "Suc i"] by simp
    show ?thesis
    proof (intro conjI impI allI)
      assume "cur = None" "length xs \<le> i"
      then show "foldl tile_step xs (map lift (toRanges_loop i (x # vs) cur))
          = (if trim (x # vs) = [] then xs else pad i xs @ trim (canon None (x # vs)))"
        using new[of xs] Some by simp
    next
      fix c s
      assume a: "cur = Some c" "startIndex c = int s" "endIndex c = int i" "s < i" "length xs \<le> s"
      show "foldl tile_step xs (map lift (toRanges_loop i (x # vs) cur))
          = pad s xs @ replicate (i - s) (Some (val c)) @ trim (canon (Some (val c)) (x # vs))"
      proof (cases "equal (val c) item")
        case True
        let ?c' = "c\<lparr>endIndex := int i + 1\<rparr>"
        have "foldl tile_step xs (map lift (toRanges_loop (Suc i) vs (Some ?c')))
          = pad s xs @ replicate (Suc i - s) (Some (val ?c')) @ trim (canon (Some (val ?c')) vs)"
          using IH[of "Some ?c'" xs "Suc i"] a by simp
        moreover have "replicate (Suc i - s) (Some (val c))
             = replicate (i - s) (Some (val c)) @ [Some (val c)]"
          using a by (simp add: Suc_diff_le replicate_append_same)
        ultimately show ?thesis using True a Some by simp
      next
        case False
        let ?xs' = "pad s xs @ replicate (i - s) (Some (val c))"
        have lc: "lift c = \<lparr>startIndex = int s, endIndex = int i, val = Some (val c)\<rparr>"
          using a by (simp add: lift_def)
        have st: "tile_step xs (lift c) = ?xs'"
          using tile_step_append[of xs s i "Some (val c)"] a lc by simp
        have len: "length ?xs' = i" using a by (simp add: pad_def)
        have "pad i ?xs' = ?xs'" using len by (simp add: pad_def)
        then show ?thesis using new[of ?xs'] len False a Some st by simp
      qed
    qed
  qed
qed

lemma tile_toRanges_canon:
  assumes "length v \<le> slotLength" and "v \<noteq> [] \<longrightarrow> last v \<noteq> None"
  shows "tileRanges slotLength (map lift (toRanges v)) = canon None v"
proof -
  have "trim (canon None v) = canon None v"
  proof (cases "v = []")
    case True
    then show ?thesis by simp
  next
    case False
    then have "canon None v \<noteq> []" using length_canon[of None v] by auto
    moreover have "last (canon None v) \<noteq> None" using last_canon[of v None] False assms(2) by simp
    ultimately show ?thesis by (rule trim_last)
  qed
  moreover have "foldl tile_step [] (map lift (toRanges_loop 0 v None))
          = (if trim v = [] then [] else pad 0 [] @ trim (canon None v))"
    using roundtrip_loop[of None "[]" 0 v] by simp
  moreover have "trim v = [] \<Longrightarrow> canon None v = []"
    using trim_canon_Nil[of None v] \<open>trim (canon None v) = canon None v\<close> by simp
  ultimately have "foldl tile_step [] (map lift (toRanges v)) = canon None v"
    by (auto simp: toRanges_def pad_def)
  then show ?thesis using assms(1)
    by (simp add: tileRanges_def Let_def length_canon set_length_def)
qed

text \<open>
  C3. For every dense array \<open>v\<close> that fits the slot and does not end in a void cell,
  \<open>tileRanges(toRanges(v))\<close> has the length of \<open>v\<close>, is void exactly where \<open>v\<close> is, and
  carries in every other cell a value that \<open>Format.equal\<close> identifies with the cell of
  \<open>v\<close>; when the cells of \<open>v\<close> are plain values (scalars and records, not
  \<open>CleanFormatRule\<close> objects) it is \<open>v\<close> itself.
\<close>

theorem tile_toRanges_roundtrip:
  assumes "length v \<le> slotLength" and "v \<noteq> [] \<longrightarrow> last v \<noteq> None"
  shows "list_all2 cell_equal (tileRanges slotLength (map lift (toRanges v))) v \<and>
         ((\<forall>x \<in> set v. \<forall>a. x = Some a \<longrightarrow> is_plain a)
            \<longrightarrow> tileRanges slotLength (map lift (toRanges v)) = v)"
  using tile_toRanges_canon[OF assms] canon_cell_equal[of None v] canon_plain[of v None]
  by simp

theorem tile_toRanges_roundtrip_witness:
  "length roundtripCells \<le> 10 \<and> roundtripCells \<noteq> [] \<and> last roundtripCells \<noteq> None \<and>
   list_all (\<lambda>x. case x of None \<Rightarrow> True | Some a \<Rightarrow> is_plain a) roundtripCells \<and>
   tileRanges 10 (map lift (toRanges roundtripCells)) = roundtripCells"
proof -
  have l: "length roundtripCells \<le> 10" by (simp add: roundtripCells_def)
  have n: "roundtripCells \<noteq> []" "last roundtripCells \<noteq> None"
    by (simp_all add: roundtripCells_def)
  have p: "list_all (\<lambda>x. case x of None \<Rightarrow> True | Some a \<Rightarrow> is_plain a) roundtripCells"
    by (simp add: roundtripCells_def is_plain_def vtrue_def)
  then have p': "\<forall>x \<in> set roundtripCells. \<forall>a. x = Some a \<longrightarrow> is_plain a"
    by (auto simp: list_all_iff)
  have "tileRanges 10 (map lift (toRanges roundtripCells)) = roundtripCells"
    using tile_toRanges_roundtrip[OF l, of] n p' by blast
  then show ?thesis using l n p by blast
qed

section \<open>CleanFormatRule and null on overlap formatters\<close>










section \<open>No formatter with an empty list\<close>

lemma toRanges_loop_Nil_iff:
  "toRanges_loop i vs cur = [] \<longleftrightarrow> cur = None \<and> (\<forall>x \<in> set vs. x = None)"
proof (induction vs arbitrary: i cur)
  case Nil
  then show ?case by (simp split: option.splits)
next
  case (Cons x vs)
  then show ?case by (cases x) (auto split: option.splits)
qed

lemma toRanges_Nil_iff: "toRanges vs = [] \<longleftrightarrow> (\<forall>x \<in> set vs. x = None)"
  by (simp add: toRanges_def toRanges_loop_Nil_iff)

lemma tile_step_paints:
  assumes "0 \<le> startIndex r" and "startIndex r < endIndex r"
  shows "nat (endIndex r) \<le> length (tile_step ys r) \<and>
         tile_step ys r ! nat (startIndex r) = val r"
proof -
  define s where "s = nat (startIndex r)"
  define e where "e = nat (endIndex r)"
  define n where "n = nat (max (int (length ys)) (endIndex r))"
  define zs where "zs = set_length n ys"
  have lt: "s < e" using assms by (simp add: s_def e_def)
  have ne: "e \<le> n" by (simp add: e_def n_def)
  have lz: "length zs = n" by (simp add: zs_def set_length_def)
  have "rel_index n (startIndex r) = min s n" using assms by (simp add: rel_index_def s_def)
  then have k: "rel_index n (startIndex r) = s" using lt ne by simp
  have "rel_index n (endIndex r) = min e n" using assms by (simp add: rel_index_def e_def)
  then have f: "rel_index n (endIndex r) = e" using ne by simp
  have ts: "tile_step ys r = take s zs @ replicate (e - s) (val r) @ drop e zs"
    using lt by (simp add: tile_step_def fill_def Let_def k f lz zs_def[symmetric] n_def[symmetric])
  have lk: "length (take s zs) = s" using lz ne lt by simp
  have "tile_step ys r ! s = val r" using lt ne by (simp add: ts nth_append lz)
  moreover have "length (tile_step ys r) = n" using lz ne lt by (simp add: ts)
  ultimately show ?thesis using ne by (simp add: s_def e_def)
qed

lemma tileRanges_has_value:
  assumes "rs \<noteq> []"
    and "\<forall>r \<in> set rs. 0 \<le> startIndex r \<and> startIndex r < endIndex r \<and> endIndex r \<le> int len"
  shows "\<exists>x \<in> set (tileRanges len (map lift rs)). x \<noteq> None"
proof -
  obtain rs' r where rs: "rs = rs' @ [r]" using assms(1) by (metis rev_exhaust)
  define c where "c = tile_step (foldl tile_step [] (map lift rs')) (lift r)"
  define s where "s = nat (startIndex r)"
  define e where "e = nat (endIndex r)"
  have r: "0 \<le> startIndex r" "startIndex r < endIndex r" "endIndex r \<le> int len"
    using assms(2) rs by auto
  have lr: "startIndex (lift r) = startIndex r" "endIndex (lift r) = endIndex r"
    "val (lift r) = Some (val r)" by (simp_all add: lift_def)
  from tile_step_paints[of "lift r" "foldl tile_step [] (map lift rs')"] r lr
  have p: "e \<le> length c" "c ! s = Some (val r)" by (auto simp: c_def s_def e_def)
  have se: "s < e" "e \<le> len" using r by (simp_all add: s_def e_def)
  have cells: "foldl tile_step [] (map lift rs) = c" using rs by (simp add: c_def)
  define m where "m = min (length c) len"
  have t: "tileRanges len (map lift rs) = take m c"
    by (simp add: tileRanges_def cells Let_def set_length_def m_def)
  have lt: "s < m" using p(1) se by (simp add: m_def)
  then have "take m c ! s = Some (val r)" using p(2) by simp
  moreover have "s < length (take m c)" using lt by (simp add: m_def)
  ultimately have "Some (val r) \<in> set (take m c)" by (metis nth_mem)
  then show ?thesis using t by auto
qed

lemma splice_insert_keeps: "set xs \<subseteq> set (splice i 0 items xs)"
proof -
  have "set xs = set (take (rel_index (length xs) i) xs) \<union> set (drop (rel_index (length xs) i) xs)"
    by (metis append_take_drop_id set_append)
  then show ?thesis by (auto simp: splice_def Let_def)
qed

lemma group_insert_groups:
  "\<forall>(k, g) \<in> set m. g \<noteq> [] \<and> set g \<subseteq> S \<Longrightarrow>
   \<forall>(k, g) \<in> set (group_insert item m). g \<noteq> [] \<and> set g \<subseteq> insert item S"
  by (induction item m rule: group_insert.induct) (auto split: if_splits)

lemma group_insert_nonempty: "group_insert item m \<noteq> []"
  by (induction item m rule: group_insert.induct) auto

lemma formatRangesToMap_groups_aux:
  "\<forall>(k, g) \<in> set m0. g \<noteq> [] \<and> set g \<subseteq> S \<Longrightarrow>
   \<forall>(k, g) \<in> set (foldl (\<lambda>m item. group_insert item m) m0 rs). g \<noteq> [] \<and> set g \<subseteq> S \<union> set rs"
proof (induction rs arbitrary: m0 S)
  case Nil
  then show ?case by simp
next
  case (Cons r rs)
  from Cons.IH[OF group_insert_groups[OF Cons.prems, of r]] show ?case by simp
qed

lemma formatRangesToMap_groups:
  "(k, g) \<in> set (formatRangesToMap rs) \<Longrightarrow> g \<noteq> [] \<and> set g \<subseteq> set rs"
  using formatRangesToMap_groups_aux[of "[]" "{}" rs] by (auto simp: formatRangesToMap_def)

lemma foldl_group_insert_nonempty:
  "m0 \<noteq> [] \<Longrightarrow> foldl (\<lambda>m item. group_insert item m) m0 rs \<noteq> []"
  by (induction rs arbitrary: m0) (auto simp: group_insert_nonempty)

lemma formatRangesToMap_nonempty: "rs \<noteq> [] \<Longrightarrow> formatRangesToMap rs \<noteq> []"
  by (cases rs) (auto simp: formatRangesToMap_def foldl_group_insert_nonempty group_insert_nonempty)

lemma split_tile_nonempty:
  assumes "rs \<noteq> []"
    and "\<forall>r \<in> set rs. 0 \<le> startIndex r \<and> startIndex r < endIndex r \<and> endIndex r \<le> int len"
  shows "toRanges (splice i 0 items (tileRanges len (map lift rs))) \<noteq> []"
  using tileRanges_has_value[OF assms] splice_insert_keeps[of "tileRanges len (map lift rs)" i items]
  by (auto simp: toRanges_Nil_iff)

lemma split_ranges_nonempty:
  assumes "rs \<noteq> []"
    and "ftype key = Inline \<longrightarrow>
         (\<forall>r \<in> set rs. 0 \<le> startIndex r \<and> startIndex r < endIndex r \<and> endIndex r \<le> int len)"
  shows "split_ranges len i d key rs \<noteq> []"
proof (cases "ftype key")
  case Block
  then show ?thesis using assms(1) by (simp add: split_ranges_def)
next
  case Inline
  then have b: "\<forall>r \<in> set rs. 0 \<le> startIndex r \<and> startIndex r < endIndex r \<and> endIndex r \<le> int len"
    using assms(2) by simp
  show ?thesis
  proof (cases "overlap key")
    case False
    then show ?thesis using Inline split_tile_nonempty[OF assms(1) b]
      by (simp add: split_ranges_def)
  next
    case True
    obtain k g where kg: "(k, g) \<in> set (formatRangesToMap rs)"
      using formatRangesToMap_nonempty[OF assms(1)] by (cases "formatRangesToMap rs") auto
    from formatRangesToMap_groups[OF kg] b
    have "g \<noteq> []" "\<forall>r \<in> set g. 0 \<le> startIndex r \<and> startIndex r < endIndex r \<and> endIndex r \<le> int len"
      by auto
    from split_tile_nonempty[OF this]
    have "toRanges (splice i 0 (replicate (nat d) None) (tileRanges len (map lift g))) \<noteq> []" .
    then show ?thesis using Inline True kg
      by (force simp: split_ranges_def)
  qed
qed

lemma in_map_set: "(a, b) \<in> set (map_set m k v) \<Longrightarrow> (a, b) \<in> set m \<or> (a = k \<and> b = v)"
  using set_update_subset[of k v m] by (auto simp: map_set_def)

lemma in_map_delete: "(a, b) \<in> set (map_delete m k) \<Longrightarrow> (a, b) \<in> set m"
  by (simp add: map_delete_def AList.delete_eq)

lemma ku_same: "key_update P this f this"
  by (simp add: key_update_def)

lemma ku_delete: "key_update P this f (this\<lparr>fmt_map := map_delete (fmt_map this) f\<rparr>)"
  by (simp add: key_update_def)

lemma ku_set: "P v \<Longrightarrow> key_update P this f (this\<lparr>fmt_map := map_set (fmt_map this) f v\<rparr>)"
  unfolding key_update_def by blast

lemma key_update_entries:
  assumes "key_update P this f r" and "(a, b) \<in> set (fmt_map r)"
  shows "(a, b) \<in> set (fmt_map this) \<or> (a = f \<and> P b)"
  using assms in_map_set[of a b "fmt_map this" f] in_map_delete[of a b "fmt_map this" f]
  by (fastforce simp: key_update_def)

lemma merge_block_no_empty_update:
  "key_update (\<lambda>v. v \<noteq> []) this f (merge_block this f d)"
  by (simp add: merge_block_def Let_def isVoid_def ku_same ku_delete ku_set
      split: option.splits sval.splits list.splits)

lemma merge_inline_no_empty_update:
  "key_update (\<lambda>v. v \<noteq> []) this f (merge_inline this f d)"
  by (simp add: merge_inline_def Let_def ku_same ku_delete ku_set split: option.splits)

lemma merge_no_empty: "no_empty_key this \<Longrightarrow> no_empty_key (merge this f d)"
proof -
  assume a: "no_empty_key this"
  have "key_update (\<lambda>v. v \<noteq> []) this f (merge this f d)"
    by (simp add: merge_def merge_block_no_empty_update merge_inline_no_empty_update ku_same
        split: merge_data.splits)
  from key_update_entries[OF this] a show ?thesis
    by (fastforce simp: no_empty_key_def)
qed

lemma stretch_no_empty: "no_empty_key this \<Longrightarrow> no_empty_key (stretch this i c)"
  by (auto simp: no_empty_key_def stretch_def)

lemma split_no_empty:
  assumes "no_empty_key this" and "ranges_in_slot this"
  shows "no_empty_key (split this i d)"
proof -
  have "b \<noteq> []" if "(a, b) \<in> set (fmt_map (split this i d))" for a b
  proof -
    from that obtain rs where m: "(a, rs) \<in> set (fmt_map this)"
      and b: "b = split_ranges (slot_length this) i d a rs"
      by (auto simp: split_def)
    have "rs \<noteq> []" using assms(1) m by (auto simp: no_empty_key_def)
    moreover have "ftype a = Inline \<longrightarrow>
         (\<forall>r \<in> set rs. 0 \<le> startIndex r \<and> startIndex r < endIndex r
              \<and> endIndex r \<le> int (slot_length this))"
      using assms(2) m by (auto simp: ranges_in_slot_def)
    ultimately show ?thesis using b split_ranges_nonempty by simp
  qed
  then show ?thesis by (auto simp: no_empty_key_def)
qed

lemma foldl_invariant:
  "P m \<Longrightarrow> (\<And>m k. P m \<Longrightarrow> P (step m k)) \<Longrightarrow> P (foldl step m ks)"
  by (induction ks arbitrary: m) auto

lemma renormalize_key_no_empty:
  "\<forall>(f, rs) \<in> set m. rs \<noteq> [] \<Longrightarrow> \<forall>(f, rs) \<in> set (renormalize_key len m k). rs \<noteq> []"
proof -
  assume a: "\<forall>(f, rs) \<in> set m. rs \<noteq> []"
  have "b \<noteq> []" if "(x, b) \<in> set (renormalize_key len m k)" for x b
  proof (cases "map_get m k")
    case None
    then show ?thesis using that a by (auto simp: renormalize_key_def)
  next
    case (Some old)
    show ?thesis
    proof (cases "normalizeFormatRange len k old None = []")
      case True
      then have "(x, b) \<in> set (map_delete m k)" using that Some by (simp add: renormalize_key_def)
      from in_map_delete[OF this] a show ?thesis by auto
    next
      case False
      then have "(x, b) \<in> set (map_set m k (normalizeFormatRange len k old None))"
        using that Some by (simp add: renormalize_key_def)
      from in_map_set[OF this] a False show ?thesis by auto
    qed
  qed
  then show ?thesis by auto
qed

lemma shrink_no_empty: "no_empty_key this \<Longrightarrow> no_empty_key (shrink this i c)"
proof -
  assume a: "no_empty_key this"
  let ?m = "map (\<lambda>(k, values). (k, map (shrink_range i c) values)) (fmt_map this)"
  have "\<forall>(f, rs) \<in> set ?m. rs \<noteq> []" using a by (auto simp: no_empty_key_def)
  then have "\<forall>(f, rs) \<in> set (foldl (renormalize_key (slot_length this)) ?m (map fst ?m)). rs \<noteq> []"
    by (rule foldl_invariant) (rule renormalize_key_no_empty)
  then show ?thesis by (simp add: shrink_def Let_def no_empty_key_def)
qed

lemma extract_no_empty: "no_empty_key (extractFormat this a b)"
  using extract_fold_inv[where ?m0.0 = "[]" and P = "\<lambda>rs. rs \<noteq> []"
      and g = "extractFormatRangesByFormatter this a b" and h = "\<lambda>x. x"
      and entries = "fmt_map this"]
  by (simp add: no_empty_key_def extractFormat_def)

lemma createFormatByRange_no_empty: "no_empty_key (createFormatByRange this L a b)"
  using extract_fold_inv[where ?m0.0 = "[]" and P = "\<lambda>rs. rs \<noteq> []"
      and g = "extractFormatRangesByFormatter this a b"
      and h = "map (\<lambda>i. i\<lparr>startIndex := startIndex i - a, endIndex := endIndex i - a\<rparr>)"
      and entries = "fmt_map this"]
  by (simp add: no_empty_key_def createFormatByRange_def)

text \<open>
  Where the invariant is preserved: \<open>merge\<close>, \<open>stretch\<close>, \<open>shrink\<close>, \<open>extract\<close> and
  \<open>createFormatByRange\<close> keep every stored list non-empty on every store (they set a
  non-empty list or delete the key), and \<open>split\<close> does on a store whose inline ranges
  are non-empty and lie within the slot.
\<close>

lemma no_empty_key_preserved:
  assumes "no_empty_key this"
  shows "no_empty_key (merge this f d) \<and>
         no_empty_key (stretch this i c) \<and>
         (ranges_in_slot this \<longrightarrow> no_empty_key (split this i c)) \<and>
         no_empty_key (shrink this i c) \<and>
         no_empty_key (extractFormat this a b) \<and>
         no_empty_key (createFormatByRange this L a b)"
  using merge_no_empty[OF assms] stretch_no_empty[OF assms] split_no_empty[OF assms]
    shrink_no_empty[OF assms] extract_no_empty createFormatByRange_no_empty
  by simp

lemma no_empty_key_preserved_example:
  "no_empty_key scenarioB \<and> ranges_in_slot scenarioB \<and>
   no_empty_key (merge scenarioB bold
                   (InlineData \<lparr>startIndex = 0, endIndex = 10, val = None\<rparr>)) \<and>
   fmt_map (merge scenarioB bold
              (InlineData \<lparr>startIndex = 0, endIndex = 10, val = None\<rparr>)) = [] \<and>
   no_empty_key (stretch scenarioB 3 1) \<and>
   no_empty_key (split scenarioB 3 1) \<and>
   fmt_map (split scenarioB 3 1)
     = [(bold, [\<lparr>startIndex = 2, endIndex = 3, val = vtrue\<rparr>,
                \<lparr>startIndex = 4, endIndex = 10, val = vtrue\<rparr>])] \<and>
   no_empty_key (shrink scenarioB 3 1) \<and>
   no_empty_key (extractFormat scenarioB 0 2) \<and>
   fmt_map (extractFormat scenarioB 0 2) = [] \<and>
   no_empty_key (createFormatByRange scenarioB 5 4 9)"
proof -
  have n: "no_empty_key scenarioB" unfolding no_empty_key_def by code_simp
  have r: "ranges_in_slot scenarioB" unfolding ranges_in_slot_def by code_simp
  have m: "fmt_map (merge scenarioB bold
              (InlineData \<lparr>startIndex = 0, endIndex = 10, val = None\<rparr>)) = []"
    by code_simp
  have s: "fmt_map (split scenarioB 3 1)
     = [(bold, [\<lparr>startIndex = 2, endIndex = 3, val = vtrue\<rparr>,
                \<lparr>startIndex = 4, endIndex = 10, val = vtrue\<rparr>])]"
    by code_simp
  have e: "fmt_map (extractFormat scenarioB 0 2) = []" by code_simp
  from no_empty_key_preserved[OF n, of bold "InlineData \<lparr>startIndex = 0, endIndex = 10, val = None\<rparr>"
      3 1 0 2 5] r
  have 1: "no_empty_key (merge scenarioB bold
                   (InlineData \<lparr>startIndex = 0, endIndex = 10, val = None\<rparr>))"
    and 2: "no_empty_key (stretch scenarioB 3 1)"
    and 3: "no_empty_key (split scenarioB 3 1)"
    and 4: "no_empty_key (shrink scenarioB 3 1)"
    and 5: "no_empty_key (extractFormat scenarioB 0 2)"
    by blast+
  from no_empty_key_preserved[OF n, of bold "InlineData \<lparr>startIndex = 0, endIndex = 10, val = None\<rparr>"
      3 1 4 9 5]
  have 6: "no_empty_key (createFormatByRange scenarioB 5 4 9)" by blast
  show ?thesis using n r m s e 1 2 3 4 5 6 by blast
qed

text \<open>
  C7. \<open>split\<close> does not preserve the invariant on every store that \<open>merge\<close> can
  build: \<open>merge\<close> stores the first range of a formatter as it is given, here
  \<open>{12,15,true}\<close> on a slot of length 10; \<open>split\<close> tiles it, clips the tiling to the slot,
  and writes back the resulting empty list without testing its length, as \<open>merge\<close> and
  \<open>shrink\<close> do.
\<close>

theorem split_leaves_empty_list:
  "fmt_map (merge emptyStore bold
              (InlineData \<lparr>startIndex = 12, endIndex = 15, val = Some vtrue\<rparr>))
     = [(bold, [\<lparr>startIndex = 12, endIndex = 15, val = vtrue\<rparr>])] \<and>
   fmt_map (split (merge emptyStore bold
                     (InlineData \<lparr>startIndex = 12, endIndex = 15, val = Some vtrue\<rparr>))
              0 1)
     = [(bold, [])] \<and>
   fmt_map (shrink (merge emptyStore bold
                      (InlineData \<lparr>startIndex = 12, endIndex = 15, val = Some vtrue\<rparr>))
              0 1)
     = []"
  by code_simp

section \<open>Sorted, disjoint and coalesced range lists\<close>

lemma normal_from_weaken: "normal_from b pv rs \<Longrightarrow> b' < b \<Longrightarrow> normal_from b' pv' rs"
  by (cases rs) (auto split: option.splits)

lemma normal_from_upgrade:
  "normal_from b None rs \<Longrightarrow> rs \<noteq> [] \<Longrightarrow> \<not> equal v (val (hd rs)) \<Longrightarrow> normal_from b (Some v) rs"
  by (cases rs) auto

lemma normal_from_ranges_normal: "normal_from b pv rs \<Longrightarrow> ranges_normal rs"
  by (cases rs) (auto simp: ranges_normal_def)

lemma normal_from_bounds: "normal_from b pv rs \<Longrightarrow> r \<in> set rs \<Longrightarrow> b \<le> startIndex r \<and> startIndex r < endIndex r"
proof (induction rs arbitrary: b pv)
  case Nil
  then show ?case by simp
next
  case (Cons a rs)
  show ?case
  proof (cases "r = a")
    case True
    then show ?thesis using Cons.prems by simp
  next
    case False
    then have "r \<in> set rs" using Cons.prems by simp
    moreover have "normal_from (endIndex a) (Some (val a)) rs" using Cons.prems by simp
    ultimately have "endIndex a \<le> startIndex r \<and> startIndex r < endIndex r" using Cons.IH by blast
    then show ?thesis using Cons.prems(1) by simp
  qed
qed

lemma normal_from_list_invariant: "normal_from b pv rs \<Longrightarrow> list_invariant rs"
proof (induction rs arbitrary: b pv)
  case Nil
  then show ?case by (simp add: list_invariant_def sorted_by_start_def)
next
  case (Cons a rs)
  have nf: "normal_from (endIndex a) (Some (val a)) rs" using Cons.prems by simp
  have a: "startIndex a < endIndex a" using Cons.prems by simp
  have ih: "list_invariant rs" using Cons.IH[OF nf] .
  have bd: "\<forall>r \<in> set rs. endIndex a \<le> startIndex r \<and> startIndex r < endIndex r"
    using normal_from_bounds[OF nf] by blast
  have d: "\<forall>r' \<in> set rs. range_span a \<inter> range_span r' = {}"
    using bd by (auto simp: range_span_def)
  have s: "\<forall>r \<in> set rs. startIndex a \<le> startIndex r" using bd a by auto
  have n: "no_equal_neighbours (a # rs)"
  proof (cases rs)
    case Nil
    then show ?thesis by simp
  next
    case (Cons r' rs')
    then show ?thesis using nf ih by (auto simp: list_invariant_def)
  qed
  show ?case using ih d s n by (auto simp: list_invariant_def sorted_by_start_def)
qed

lemma ranges_normal_list_invariant: "ranges_normal rs \<Longrightarrow> list_invariant rs"
proof (cases rs)
  case Nil
  then show ?thesis by (simp add: list_invariant_def sorted_by_start_def)
next
  case (Cons r rs')
  assume "ranges_normal rs"
  then have "normal_from (startIndex r) None rs" using Cons by (simp add: ranges_normal_def)
  then show ?thesis by (rule normal_from_list_invariant)
qed

lemma short_list_invariant: "length rs \<le> 1 \<Longrightarrow> list_invariant rs"
  by (cases rs) (auto simp: list_invariant_def sorted_by_start_def)

lemma toRanges_loop_normal:
  "(cur = None \<longrightarrow> normal_from (int i) None (toRanges_loop i vs cur)) \<and>
   (\<forall>c. cur = Some c \<longrightarrow> startIndex c < int i \<longrightarrow> endIndex c = int i \<longrightarrow>
      toRanges_loop i vs cur \<noteq> [] \<and>
      val (hd (toRanges_loop i vs cur)) = val c \<and>
      normal_from (startIndex c) None (toRanges_loop i vs cur))"
proof (induction vs arbitrary: i cur)
  case Nil
  then show ?case by auto
next
  case (Cons x vs)
  show ?case
  proof (cases x)
    case None
    have r: "normal_from (int (Suc i)) None (toRanges_loop (Suc i) vs None)"
      using Cons.IH[of None "Suc i"] by simp
    have r1: "normal_from (int i) pv (toRanges_loop (Suc i) vs None)" for pv
      using normal_from_weaken[OF r, of "int i" pv] by simp
    show ?thesis using None r1 by (auto split: option.splits)
  next
    case (Some item)
    let ?n = "\<lparr>startIndex = int i, endIndex = int i + 1, val = item\<rparr>"
    have n: "toRanges_loop (Suc i) vs (Some ?n) \<noteq> [] \<and>
        val (hd (toRanges_loop (Suc i) vs (Some ?n))) = item \<and>
        normal_from (int i) None (toRanges_loop (Suc i) vs (Some ?n))"
      using Cons.IH[of "Some ?n" "Suc i"] by simp
    show ?thesis
    proof (rule conjI; intro impI allI)
      assume "cur = None"
      then show "normal_from (int i) None (toRanges_loop i (x # vs) cur)"
        using Some n by simp
    next
      fix c assume a: "cur = Some c" "startIndex c < int i" "endIndex c = int i"
      show "toRanges_loop i (x # vs) cur \<noteq> [] \<and>
            val (hd (toRanges_loop i (x # vs) cur)) = val c \<and>
            normal_from (startIndex c) None (toRanges_loop i (x # vs) cur)"
      proof (cases "equal (val c) item")
        case True
        then show ?thesis
          using Cons.IH[of "Some (c\<lparr>endIndex := int i + 1\<rparr>)" "Suc i"] a Some by simp
      next
        case False
        have "normal_from (int i) (Some (val c)) (toRanges_loop (Suc i) vs (Some ?n))"
          using normal_from_upgrade[of "int i" _ "val c"] n False by simp
        then show ?thesis using False a Some by simp
      qed
    qed
  qed
qed

lemma toRanges_normal: "normal_from 0 None (toRanges vs)"
  using toRanges_loop_normal[of None 0 vs] by (simp add: toRanges_def)

lemma stretch_normal_from:
  "normal_from b pv rs \<Longrightarrow> 0 \<le> c \<Longrightarrow>
   normal_from (if i \<le> b then b + c else b) pv (map (stretch_range i c) rs)"
proof (induction rs arbitrary: b pv)
  case Nil
  then show ?case by simp
next
  case (Cons r rs)
  have nf: "normal_from (endIndex r) (Some (val r)) rs" using Cons.prems by simp
  have ih: "normal_from (if i \<le> endIndex r then endIndex r + c else endIndex r) (Some (val r))
              (map (stretch_range i c) rs)"
    using Cons.IH[OF nf Cons.prems(2)] .
  have e: "endIndex (stretch_range i c r) = (if i \<le> endIndex r then endIndex r + c else endIndex r)"
    by (simp add: stretch_range_def Let_def)
  have v: "val (stretch_range i c r) = val r" by (simp add: stretch_range_def Let_def)
  have s: "startIndex (stretch_range i c r)
      = (if i \<le> endIndex r \<and> i \<le> startIndex r then startIndex r + c else startIndex r)"
    by (simp add: stretch_range_def Let_def)
  show ?case using Cons.prems ih e v s by (auto split: option.splits)
qed

lemma extract_normal_from:
  "normal_from b pv rs \<Longrightarrow> normal_from b pv (concat (map (extract_range x y) rs))"
proof (induction rs arbitrary: b pv)
  case Nil
  then show ?case by simp
next
  case (Cons r rs)
  have nf: "normal_from (endIndex r) (Some (val r)) rs" using Cons.prems by simp
  have ih: "normal_from (endIndex r) (Some (val r)) (concat (map (extract_range x y) rs))"
    using Cons.IH[OF nf] .
  have br: "b \<le> startIndex r" "startIndex r < endIndex r" using Cons.prems by auto
  show ?case
  proof (cases "extract_range x y r = []")
    case True
    have "b < endIndex r" using br by simp
    from normal_from_weaken[OF ih this] True show ?thesis by simp
  next
    case False
    then have ex: "extract_range x y r
        = [\<lparr>startIndex = max (startIndex r) x, endIndex = min (endIndex r) y, val = val r\<rparr>]"
      and lt: "max (startIndex r) x < min (endIndex r) y"
      by (auto simp: extract_range_def Let_def split: if_splits)
    have rest: "normal_from (min (endIndex r) y) (Some (val r)) (concat (map (extract_range x y) rs))"
    proof (cases "min (endIndex r) y = endIndex r")
      case True
      then show ?thesis using ih by simp
    next
      case False
      then have "min (endIndex r) y < endIndex r" by simp
      from normal_from_weaken[OF ih this] show ?thesis .
    qed
    show ?thesis using ex lt rest br Cons.prems by (auto split: option.splits)
  qed
qed

lemma rebase_normal_from:
  "normal_from b pv rs \<Longrightarrow>
   normal_from (b - d) pv
     (map (\<lambda>i. i\<lparr>startIndex := startIndex i - d, endIndex := endIndex i - d\<rparr>) rs)"
  by (induction rs arbitrary: b pv) (auto split: option.splits)

lemma toRanges_loop_voids:
  "toRanges_loop i (replicate c None) cur = (case cur of None \<Rightarrow> [] | Some r \<Rightarrow> [r])"
  by (induction c arbitrary: i cur) (auto split: option.splits)

lemma toRanges_loop_run:
  "cur = None \<or> (\<exists>r. cur = Some r \<and> val r = v) \<Longrightarrow>
   length (toRanges_loop i (replicate b (Some v) @ replicate c None) cur) \<le> 1"
proof (induction b arbitrary: i cur)
  case 0
  then show ?case by (auto simp: toRanges_loop_voids split: option.splits)
next
  case (Suc b)
  show ?case
  proof (cases cur)
    case None
    then show ?thesis using Suc.IH[of "Some \<lparr>startIndex = int i, endIndex = int i + 1, val = v\<rparr>" "Suc i"]
      by simp
  next
    case (Some r)
    then have "val r = v" using Suc.prems by simp
    then show ?thesis using Some Suc.IH[of "Some (r\<lparr>endIndex := int i + 1\<rparr>)" "Suc i"]
      by (simp add: equal_refl)
  qed
qed

lemma toRanges_loop_block:
  "length (toRanges_loop i (replicate a None @ replicate b (Some v) @ replicate c None) None) \<le> 1"
proof (induction a arbitrary: i)
  case 0
  then show ?case using toRanges_loop_run[of None v i b c] by simp
next
  case (Suc a)
  then show ?case by simp
qed

lemma tile_single_shape:
  "\<exists>a b c. tileRanges len [lift r]
     = replicate a None @ replicate b (Some (val r)) @ replicate c None"
proof -
  define n where "n = nat (max 0 (endIndex r))"
  define k where "k = rel_index n (startIndex r)"
  define f where "f = rel_index n (endIndex r)"
  have z: "set_length (nat (max (int (length ([]::fvalue list))) (endIndex (lift r)))) []
             = replicate n None"
    by (simp add: set_length_def n_def lift_def)
  have "tile_step [] (lift r)
      = fill (Some (val r)) (startIndex r) (endIndex r) (replicate n None)"
    unfolding tile_step_def z by (simp add: lift_def)
  also have "\<dots> = (if k < f then replicate (min k n) None @ replicate (f - k) (Some (val r))
                       @ replicate (n - f) None
         else replicate n None)"
    by (simp add: fill_def Let_def k_def f_def)
  finally have ts: "tile_step [] (lift r)
      = (if k < f then replicate (min k n) None @ replicate (f - k) (Some (val r))
                       @ replicate (n - f) None
         else replicate n None)" .
  define cells where "cells = tile_step [] (lift r)"
  define m where "m = min (length cells) len"
  have t: "tileRanges len [lift r] = take m cells"
    by (simp add: tileRanges_def Let_def set_length_def cells_def m_def)
  show ?thesis
  proof (cases "k < f")
    case True
    then have "take m cells = replicate (min m (min k n)) None
        @ replicate (min (m - min k n) (f - k)) (Some (val r))
        @ replicate (min (m - min k n - (f - k)) (n - f)) None"
      by (simp add: cells_def ts)
    then show ?thesis using t by metis
  next
    case False
    then have "take m cells = replicate (min m n) None @ replicate 0 (Some (val r)) @ replicate 0 None"
      by (simp add: cells_def ts)
    then show ?thesis using t by metis
  qed
qed

lemma normalize_short:
  assumes "length rs \<le> 1"
  shows "length (toRanges (tileRanges len (map lift rs))) \<le> 1"
proof (cases rs)
  case Nil
  then show ?thesis by (simp add: tileRanges_def set_length_def toRanges_def)
next
  case (Cons r rs')
  then have "rs = [r]" using assms by simp
  moreover obtain a b c where "tileRanges len [lift r]
     = replicate a None @ replicate b (Some (val r)) @ replicate c None"
    using tile_single_shape by blast
  ultimately show ?thesis using toRanges_loop_block[of 0 a b "val r" c] by (simp add: toRanges_def)
qed

lemma normalize_entry_normal:
  "entry_normal f rs \<Longrightarrow> entry_normal f (normalizeFormatRange len f rs None)"
proof (cases "overlap f")
  case True
  then show ?thesis by (simp add: entry_normal_def)
next
  case False
  assume e: "entry_normal f rs"
  have n: "normalizeFormatRange len f rs None = toRanges (tileRanges len (map lift rs))"
    using False by (simp add: normalizeFormatRange_def)
  show ?thesis
  proof (cases "ftype f = Block")
    case True
    then have "length rs \<le> 1" using e False by (simp add: entry_normal_def)
    from normalize_short[OF this] show ?thesis using True False n by (simp add: entry_normal_def)
  next
    case nb: False
    have "ranges_normal (toRanges (tileRanges len (map lift rs)))"
      using toRanges_normal by (rule normal_from_ranges_normal)
    then show ?thesis using nb False n by (simp add: entry_normal_def)
  qed
qed

lemma stretch_entry_normal:
  assumes "entry_normal f rs" and "0 \<le> c"
  shows "entry_normal f (map (stretch_range i c) rs)"
proof (cases "overlap f \<or> ftype f = Block \<or> length rs \<le> 1")
  case True
  then show ?thesis using assms(1) by (auto simp: entry_normal_def)
next
  case False
  then have rn: "ranges_normal rs" using assms(1) by (simp add: entry_normal_def)
  have "ranges_normal (map (stretch_range i c) rs)"
  proof (cases rs)
    case Nil
    then show ?thesis by (simp add: ranges_normal_def)
  next
    case (Cons r rs')
    then have "normal_from (startIndex r) None rs" using rn by (simp add: ranges_normal_def)
    from stretch_normal_from[OF this assms(2)] show ?thesis by (rule normal_from_ranges_normal)
  qed
  then show ?thesis using False by (simp add: entry_normal_def)
qed

lemma split_entry_normal:
  assumes "entry_normal f rs"
  shows "entry_normal f (split_ranges len i d f rs)"
proof (cases "overlap f")
  case True
  then show ?thesis by (simp add: entry_normal_def)
next
  case False
  show ?thesis
  proof (cases "ftype f = Block")
    case True
    then show ?thesis using assms False by (simp add: entry_normal_def split_ranges_def)
  next
    case nb: False
    have "ranges_normal (toRanges (splice i 0 (replicate (nat d) None)
              (tileRanges len (map lift rs))))"
      using toRanges_normal by (rule normal_from_ranges_normal)
    then show ?thesis using nb False by (simp add: entry_normal_def split_ranges_def)
  qed
qed

lemma length_extract_ranges: "length (concat (map (extract_range a b) rs)) \<le> length rs"
  by (induction rs) (auto simp: extract_range_def Let_def)

lemma extract_entry_normal:
  assumes "entry_normal f rs"
  shows "entry_normal f (concat (map (extract_range a b) rs))"
proof (cases "overlap f \<or> ftype f = Block \<or> length rs \<le> 1")
  case True
  then show ?thesis using assms length_extract_ranges[of a b rs]
    by (auto simp: entry_normal_def)
next
  case False
  then have rn: "ranges_normal rs" using assms(1) by (simp add: entry_normal_def)
  have "ranges_normal (concat (map (extract_range a b) rs))"
  proof (cases rs)
    case Nil
    then show ?thesis by (simp add: ranges_normal_def)
  next
    case (Cons r rs')
    then have "normal_from (startIndex r) None rs" using rn by (simp add: ranges_normal_def)
    from extract_normal_from[OF this] show ?thesis by (rule normal_from_ranges_normal)
  qed
  then show ?thesis using False by (simp add: entry_normal_def)
qed

lemma rebase_entry_normal:
  assumes "entry_normal f rs"
  shows "entry_normal f
     (map (\<lambda>i. i\<lparr>startIndex := startIndex i - d, endIndex := endIndex i - d\<rparr>) rs)"
proof (cases "overlap f \<or> ftype f = Block \<or> length rs \<le> 1")
  case True
  then show ?thesis using assms by (auto simp: entry_normal_def)
next
  case False
  then have rn: "ranges_normal rs" using assms(1) by (simp add: entry_normal_def)
  have "ranges_normal (map (\<lambda>i. i\<lparr>startIndex := startIndex i - d, endIndex := endIndex i - d\<rparr>) rs)"
  proof (cases rs)
    case Nil
    then show ?thesis by (simp add: ranges_normal_def)
  next
    case (Cons r rs')
    then have "normal_from (startIndex r) None rs" using rn by (simp add: ranges_normal_def)
    from rebase_normal_from[OF this] show ?thesis by (rule normal_from_ranges_normal)
  qed
  then show ?thesis using False by (simp add: entry_normal_def)
qed

lemma extract_fold_inv2:
  "I m0 \<Longrightarrow> (\<And>m k. I m \<Longrightarrow> g k \<noteq> [] \<Longrightarrow> I (map_set m k (h (g k)))) \<Longrightarrow>
   I (foldl (\<lambda>m (key, ranges). (let ex = g key in if ex \<noteq> [] then map_set m key (h ex) else m))
        m0 entries)"
proof (induction entries arbitrary: m0)
  case Nil
  then show ?case by simp
next
  case (Cons a entries)
  obtain key ranges where a: "a = (key, ranges)" by (cases a)
  have "I (let ex = g key in if ex \<noteq> [] then map_set m0 key (h ex) else m0)"
    using Cons.prems by (simp add: Let_def)
  from Cons.IH[OF this Cons.prems(2)] show ?case by (simp add: a)
qed

lemma map_normal_set: "map_normal m \<Longrightarrow> entry_normal k v \<Longrightarrow> map_normal (map_set m k v)"
proof -
  assume a: "map_normal m" "entry_normal k v"
  have "distinct (map fst (map_set m k v))"
    using a(1) by (simp add: map_normal_def map_set_def distinct_update)
  moreover have "entry_normal x b" if "(x, b) \<in> set (map_set m k v)" for x b
    using in_map_set[OF that] a by (auto simp: map_normal_def)
  ultimately show ?thesis by (auto simp: map_normal_def)
qed

lemma map_normal_delete: "map_normal m \<Longrightarrow> map_normal (map_delete m k)"
proof -
  assume a: "map_normal m"
  have "distinct (map fst (map_delete m k))"
    using a by (simp add: map_normal_def map_delete_def distinct_delete)
  moreover have "entry_normal x b" if "(x, b) \<in> set (map_delete m k)" for x b
    using in_map_delete[OF that] a by (auto simp: map_normal_def)
  ultimately show ?thesis by (auto simp: map_normal_def)
qed

lemma key_update_normal:
  assumes "key_update (entry_normal f) this f r" and "store_normal this"
  shows "store_normal r"
proof -
  have m: "map_normal (fmt_map this)" using assms(2) by (simp add: store_normal_def map_normal_def)
  from assms(1) have "map_normal (fmt_map r)"
    unfolding key_update_def using m map_normal_set[OF m, of f] map_normal_delete[OF m, of f]
    by auto
  then show ?thesis by (simp add: store_normal_def map_normal_def)
qed

lemma normalize_no_overlap:
  "\<not> overlap f \<Longrightarrow> \<exists>cells. normalizeFormatRange len f rs nr = toRanges cells"
  unfolding normalizeFormatRange_def Let_def by (simp only: if_False) blast

lemma normalize_inline_entry_normal:
  assumes "ftype f = Inline"
  shows "entry_normal f (normalizeFormatRange len f rs nr)"
proof (cases "overlap f")
  case True
  then show ?thesis by (simp add: entry_normal_def)
next
  case False
  then obtain cells where "normalizeFormatRange len f rs nr = toRanges cells"
    using normalize_no_overlap by blast
  moreover have "ranges_normal (toRanges cells)"
    using toRanges_normal by (rule normal_from_ranges_normal)
  ultimately show ?thesis using assms by (simp add: entry_normal_def)
qed

lemma merge_block_normal_update:
  "ftype f = Block \<Longrightarrow> key_update (entry_normal f) this f (merge_block this f d)"
  by (simp add: merge_block_def Let_def isVoid_def ku_same ku_delete ku_set entry_normal_def
      split: option.splits sval.splits list.splits)

lemma merge_inline_normal_update:
  assumes "ftype f = Inline"
  shows "key_update (entry_normal f) this f (merge_inline this f d)"
proof -
  have one: "entry_normal f [\<lparr>startIndex = startIndex d, endIndex = endIndex d, val = v\<rparr>]" for v
    by (simp add: entry_normal_def)
  show ?thesis
    by (simp add: merge_inline_def Let_def ku_same ku_delete ku_set one
        normalize_inline_entry_normal[OF assms(1)] split: option.splits)
qed

lemma merge_inline_normal:
  "store_normal this \<Longrightarrow> store_normal (merge this f (InlineData d))"
  using key_update_normal[OF merge_inline_normal_update, of f this d]
  by (cases "ftype f") (auto simp: merge_def)

lemma merge_block_normal:
  "store_normal this \<Longrightarrow> store_normal (merge this f (BlockData v))"
  using key_update_normal[OF merge_block_normal_update, of f this v]
  by (cases "ftype f") (auto simp: merge_def)

lemma mapped_store_normal:
  assumes "store_normal this" and "\<And>f rs. entry_normal f rs \<Longrightarrow> entry_normal f (h f rs)"
  shows "store_normal (this\<lparr>fmt_map := map (\<lambda>(k, rs). (k, h k rs)) (fmt_map this)\<rparr>)"
proof -
  have "distinct (map fst (map (\<lambda>(k, rs). (k, h k rs)) (fmt_map this)))"
    using assms(1) by (simp only: map_fst_map_snd store_normal_def)
  moreover have "entry_normal x b" if "(x, b) \<in> set (map (\<lambda>(k, rs). (k, h k rs)) (fmt_map this))" for x b
  proof -
    from that obtain rs where m: "(x, rs) \<in> set (fmt_map this)" and b: "b = h x rs" by auto
    have "entry_normal x rs" using assms(1) m by (auto simp: store_normal_def)
    then show ?thesis using assms(2) b by simp
  qed
  ultimately show ?thesis unfolding store_normal_def by (simp del: set_map map_map) blast
qed

lemma stretch_normal: "store_normal this \<Longrightarrow> 0 \<le> c \<Longrightarrow> store_normal (stretch this i c)"
  unfolding stretch_def
  using mapped_store_normal[of this "\<lambda>k. map (stretch_range i c)"] stretch_entry_normal
  by simp

lemma split_normal: "store_normal this \<Longrightarrow> store_normal (split this i d)"
  unfolding split_def
  using mapped_store_normal[of this "split_ranges (slot_length this) i d"] split_entry_normal
  by simp

lemma shrink_normal:
  assumes "store_normal this"
  shows "store_normal (shrink this i c)"
proof -
  have d: "distinct (map fst (fmt_map this))" using assms by (simp add: store_normal_def)
  let ?m = "map (\<lambda>(k, rs). (k, map (shrunk i c) rs)) (fmt_map this)"
  let ?n = "map (\<lambda>(k, rs). (k, normalizeFormatRange (slot_length this) k rs None)) ?m"
  have eq: "fmt_map (shrink this i c) = filter (\<lambda>(k, rs). rs \<noteq> []) ?n"
    using shrink_map[OF d] by (simp add: renormalized_def)
  have e: "map fst ?n = map fst (fmt_map this)" by (simp only: map_fst_map_snd)
  have "distinct (map fst ?n)" unfolding e by (rule d)
  then have dn: "distinct (map fst (filter (\<lambda>(k, rs). rs \<noteq> []) ?n))"
    by (rule distinct_map_filter)
  have en: "entry_normal x b" if "(x, b) \<in> set ?n" for x b
  proof -
    from that obtain rs where m: "(x, rs) \<in> set (fmt_map this)"
      and b: "b = normalizeFormatRange (slot_length this) x (map (shrunk i c) rs) None"
      by auto
    have "entry_normal x rs" using assms m by (auto simp: store_normal_def)
    then have "entry_normal x (map (shrunk i c) rs) \<or> ftype x \<noteq> Block \<or> overlap x"
      by (auto simp: entry_normal_def)
    then show ?thesis
    proof (elim disjE)
      assume "entry_normal x (map (shrunk i c) rs)"
      then show ?thesis using b normalize_entry_normal by simp
    next
      assume "ftype x \<noteq> Block"
      then have "ftype x = Inline" by (cases "ftype x") auto
      then show ?thesis using b normalize_inline_entry_normal by simp
    next
      assume "overlap x"
      then show ?thesis by (simp add: entry_normal_def)
    qed
  qed
  have "entry_normal x b" if "(x, b) \<in> set (filter (\<lambda>(k, rs). rs \<noteq> []) ?n)" for x b
    using that en by simp
  then show ?thesis using dn unfolding store_normal_def eq by blast
qed

lemma extract_ranges_entry_normal:
  assumes "store_normal this"
  shows "entry_normal k (extractFormatRangesByFormatter this a b k)"
proof (cases "map_get (fmt_map this) k")
  case None
  then show ?thesis by (simp add: extractFormatRangesByFormatter_def entry_normal_def ranges_normal_def)
next
  case (Some rs)
  then have "(k, rs) \<in> set (fmt_map this)" by (simp add: map_get_def map_of_SomeD)
  then have "entry_normal k rs" using assms by (auto simp: store_normal_def)
  from extract_entry_normal[OF this] show ?thesis using Some
    by (simp add: extractFormatRangesByFormatter_def)
qed

lemma map_normal_Nil: "map_normal []"
  by (simp add: map_normal_def)

lemma extract_normal:
  assumes "store_normal this"
  shows "store_normal (extractFormat this a b)"
proof -
  have step: "\<And>m k. map_normal m \<Longrightarrow> extractFormatRangesByFormatter this a b k \<noteq> [] \<Longrightarrow>
      map_normal (map_set m k (extractFormatRangesByFormatter this a b k))"
    using map_normal_set extract_ranges_entry_normal[OF assms] by blast
  have "map_normal (fmt_map (extractFormat this a b))"
    unfolding extractFormat_def
    using extract_fold_inv2[of map_normal "[]" "extractFormatRangesByFormatter this a b"
        "\<lambda>x. x" "fmt_map this", OF map_normal_Nil step]
    by simp
  then show ?thesis by (simp add: store_normal_def map_normal_def)
qed

lemma createFormatByRange_normal:
  assumes "store_normal this"
  shows "store_normal (createFormatByRange this L a b)"
proof -
  let ?h = "map (\<lambda>i. i\<lparr>startIndex := startIndex i - a, endIndex := endIndex i - a\<rparr>)"
  have step: "\<And>m k. map_normal m \<Longrightarrow> extractFormatRangesByFormatter this a b k \<noteq> [] \<Longrightarrow>
      map_normal (map_set m k (?h (extractFormatRangesByFormatter this a b k)))"
    using map_normal_set rebase_entry_normal[OF extract_ranges_entry_normal[OF assms]] by blast
  have "map_normal (fmt_map (createFormatByRange this L a b))"
    unfolding createFormatByRange_def
    using extract_fold_inv2[of map_normal "[]" "extractFormatRangesByFormatter this a b"
        ?h "fmt_map this", OF map_normal_Nil step]
    by simp
  then show ?thesis by (simp add: store_normal_def map_normal_def)
qed

lemma store_normal_invariant:
  assumes "store_normal this" and "(g, rs) \<in> set (fmt_map this)" and "\<not> overlap g"
  shows "list_invariant rs"
proof -
  have "entry_normal g rs" using assms by (auto simp: store_normal_def)
  then show ?thesis using assms(3) ranges_normal_list_invariant short_list_invariant
    by (auto simp: entry_normal_def split: if_splits)
qed

text \<open>
  \<open>stretch\<close> is meant for an insertion, with the length of the inserted content as
  \<open>count\<close>. With a negative \<open>count\<close> it moves a range back over the one before it.
\<close>

lemma stretch_negative_breaks_invariant:
  "store_normal gapStore \<and> store_invariant gapStore \<and>
   fmt_map (stretch gapStore 3 (- 3))
     = [(bold, [\<lparr>startIndex = 0, endIndex = 2, val = vtrue\<rparr>,
                \<lparr>startIndex = 1, endIndex = 3, val = vtrue\<rparr>])] \<and>
   \<not> store_invariant (stretch gapStore 3 (- 3))"
proof -
  have n: "store_normal gapStore"
    unfolding store_normal_def entry_normal_def ranges_normal_def by code_simp
  have i: "store_invariant gapStore"
    by (simp add: store_invariant_def gapStore_def list_invariant_def sorted_by_start_def
        range_span_def)
  have m: "fmt_map (stretch gapStore 3 (- 3))
     = [(bold, [\<lparr>startIndex = 0, endIndex = 2, val = vtrue\<rparr>,
                \<lparr>startIndex = 1, endIndex = 3, val = vtrue\<rparr>])]"
    by code_simp
  have "(1::int) \<in> range_span \<lparr>startIndex = 0, endIndex = 2, val = vtrue\<rparr>
            \<inter> range_span \<lparr>startIndex = 1, endIndex = 3, val = vtrue\<rparr>"
    by (simp add: range_span_def)
  then have "\<not> pairwise_disjoint [\<lparr>startIndex = 0, endIndex = 2, val = vtrue\<rparr>,
                \<lparr>startIndex = 1, endIndex = 3, val = vtrue\<rparr>]"
    by auto
  then have "\<not> store_invariant (stretch gapStore 3 (- 3))"
    by (simp add: store_invariant_def m list_invariant_def)
  then show ?thesis using n i m by blast
qed

text \<open>
  C8, as the claim states it, fails: for the overlap formatter \<open>comment\<close>, holding
  \<open>'a'\<close> on \<open>[0,5)\<close>, merging \<open>'b'\<close> on \<open>[3,8)\<close> leaves the list
  \<open>[{3,8,'b'}, {0,5,'a'}]\<close>, which is neither sorted by \<open>startIndex\<close> nor disjoint.
  And for the formatter \<open>bold\<close>, without overlap, holding \<open>[0,2)\<close> and \<open>[4,6)\<close>,
  \<open>stretch(3, -3)\<close> leaves \<open>[{0,2}, {1,3}]\<close>, which is not disjoint.
\<close>

theorem overlap_merge_breaks_invariant:
  "store_invariant commentStore \<and>
   fmt_map (merge commentStore comment
              (InlineData \<lparr>startIndex = 3, endIndex = 8,
                            val = Some (Plain (Prim (PStr ''b'')))\<rparr>))
     = [(comment, [\<lparr>startIndex = 3, endIndex = 8, val = Plain (Prim (PStr ''b''))\<rparr>,
                   \<lparr>startIndex = 0, endIndex = 5, val = Plain (Prim (PStr ''a''))\<rparr>])] \<and>
   \<not> store_invariant (merge commentStore comment
              (InlineData \<lparr>startIndex = 3, endIndex = 8,
                            val = Some (Plain (Prim (PStr ''b'')))\<rparr>)) \<and>
   store_invariant gapStore \<and>
   fmt_map (stretch gapStore 3 (- 3))
     = [(bold, [\<lparr>startIndex = 0, endIndex = 2, val = vtrue\<rparr>,
                \<lparr>startIndex = 1, endIndex = 3, val = vtrue\<rparr>])] \<and>
   \<not> store_invariant (stretch gapStore 3 (- 3))"
proof -
  have a: "store_invariant commentStore"
    by (simp add: store_invariant_def commentStore_def list_invariant_def sorted_by_start_def)
  have m: "fmt_map (merge commentStore comment
              (InlineData \<lparr>startIndex = 3, endIndex = 8,
                            val = Some (Plain (Prim (PStr ''b'')))\<rparr>))
     = [(comment, [\<lparr>startIndex = 3, endIndex = 8, val = Plain (Prim (PStr ''b''))\<rparr>,
                   \<lparr>startIndex = 0, endIndex = 5, val = Plain (Prim (PStr ''a''))\<rparr>])]"
    by code_simp
  have "\<not> store_invariant (merge commentStore comment
              (InlineData \<lparr>startIndex = 3, endIndex = 8,
                            val = Some (Plain (Prim (PStr ''b'')))\<rparr>))"
    by (simp add: store_invariant_def m list_invariant_def sorted_by_start_def)
  then show ?thesis using a m stretch_negative_breaks_invariant by blast
qed

lemma empty_store_normal: "store_normal \<lparr>slot_length = len, fmt_map = []\<rparr>"
  by (simp add: store_normal_def)

lemma slot_length_store_normal: "store_normal this \<Longrightarrow> store_normal (this\<lparr>slot_length := len\<rparr>)"
  by (simp add: store_normal_def)

text \<open>
  C8, amended. \<open>store_normal\<close> holds of the empty store and does not depend on the
  length of the slot; every operation of the store preserves it (\<open>stretch\<close> for a
  non-negative count); and in a store that satisfies it the range list of every
  formatter with \<open>overlap = false\<close> is pairwise disjoint, sorted by \<open>startIndex\<close>, and
  has no two touching ranges of equal value.
\<close>

theorem store_normal_preserved:
  assumes "store_normal this"
  shows "store_normal (merge this f (InlineData d)) \<and>
         store_normal (merge this g (BlockData v)) \<and>
         (0 \<le> c \<longrightarrow> store_normal (stretch this i c)) \<and>
         store_normal (split this j n) \<and>
         store_normal (shrink this k m) \<and>
         store_normal (extractFormat this a b) \<and>
         store_normal (createFormatByRange this len a' b') \<and>
         store_normal (this\<lparr>slot_length := len'\<rparr>) \<and>
         store_normal \<lparr>slot_length = len', fmt_map = []\<rparr> \<and>
         (\<forall>(h, rs) \<in> set (fmt_map this). \<not> overlap h \<longrightarrow> list_invariant rs)"
  using merge_inline_normal[OF assms] merge_block_normal[OF assms] stretch_normal[OF assms]
    split_normal[OF assms] shrink_normal[OF assms] extract_normal[OF assms]
    createFormatByRange_normal[OF assms] store_normal_invariant[OF assms]
    slot_length_store_normal[OF assms] empty_store_normal
  by auto

theorem store_normal_preserved_witness:
  "store_normal normalStore \<and> (0::int) \<le> 1 \<and>
   store_normal (merge normalStore bold
                   (InlineData \<lparr>startIndex = 2, endIndex = 6, val = Some vtrue\<rparr>)) \<and>
   fmt_map (merge normalStore bold
                   (InlineData \<lparr>startIndex = 2, endIndex = 6, val = Some vtrue\<rparr>))
     = [(bold, [\<lparr>startIndex = 0, endIndex = 8, val = vtrue\<rparr>]),
        (align, [\<lparr>startIndex = 0, endIndex = 10, val = Plain (Prim (PStr ''left''))\<rparr>]),
        (comment, [\<lparr>startIndex = 0, endIndex = 5, val = Plain (Prim (PStr ''a''))\<rparr>])] \<and>
   store_normal (merge normalStore align (BlockData (Some (Plain (Prim (PStr ''center'')))))) \<and>
   fmt_map (merge normalStore align (BlockData (Some (Plain (Prim (PStr ''center''))))))
     = [(bold, [\<lparr>startIndex = 0, endIndex = 3, val = vtrue\<rparr>,
                \<lparr>startIndex = 5, endIndex = 8, val = vtrue\<rparr>]),
        (align, [\<lparr>startIndex = 0, endIndex = 10, val = Plain (Prim (PStr ''center''))\<rparr>]),
        (comment, [\<lparr>startIndex = 0, endIndex = 5, val = Plain (Prim (PStr ''a''))\<rparr>])] \<and>
   store_normal (stretch normalStore 3 1) \<and>
   store_normal (split normalStore 3 2) \<and>
   store_normal (shrink normalStore 3 2) \<and>
   store_normal (extractFormat normalStore 2 6) \<and>
   store_normal (createFormatByRange normalStore 4 2 6) \<and>
   list_invariant [\<lparr>startIndex = 0, endIndex = 3, val = vtrue\<rparr>,
                   \<lparr>startIndex = 5, endIndex = 8, val = vtrue\<rparr>] \<and>
   list_invariant [\<lparr>startIndex = 0, endIndex = 10, val = Plain (Prim (PStr ''left''))\<rparr>]"
proof -
  have n: "store_normal normalStore"
    unfolding store_normal_def entry_normal_def ranges_normal_def by code_simp
  have o: "\<not> overlap bold" "\<not> overlap align" by (simp_all add: bold_def align_def)
  note t = store_normal_preserved[OF n,
      where f = bold and d = "\<lparr>startIndex = 2, endIndex = 6, val = Some vtrue\<rparr>"
        and g = align and v = "Some (Plain (Prim (PStr ''center'')))"
        and c = 1 and i = 3 and j = 3 and n = 2 and k = 3 and m = 2
        and a = 2 and b = 6 and len = 4 and a' = 2 and b' = 6 and len' = 10]
  have li: "list_invariant [\<lparr>startIndex = 0, endIndex = 3, val = vtrue\<rparr>,
                   \<lparr>startIndex = 5, endIndex = 8, val = vtrue\<rparr>] \<and>
      list_invariant [\<lparr>startIndex = 0, endIndex = 10, val = Plain (Prim (PStr ''left''))\<rparr>]"
    using t o by (simp add: normalStore_def)
  have m1: "fmt_map (merge normalStore bold
                   (InlineData \<lparr>startIndex = 2, endIndex = 6, val = Some vtrue\<rparr>))
     = [(bold, [\<lparr>startIndex = 0, endIndex = 8, val = vtrue\<rparr>]),
        (align, [\<lparr>startIndex = 0, endIndex = 10, val = Plain (Prim (PStr ''left''))\<rparr>]),
        (comment, [\<lparr>startIndex = 0, endIndex = 5, val = Plain (Prim (PStr ''a''))\<rparr>])]"
    by code_simp
  have m2: "fmt_map (merge normalStore align (BlockData (Some (Plain (Prim (PStr ''center''))))))
     = [(bold, [\<lparr>startIndex = 0, endIndex = 3, val = vtrue\<rparr>,
                \<lparr>startIndex = 5, endIndex = 8, val = vtrue\<rparr>]),
        (align, [\<lparr>startIndex = 0, endIndex = 10, val = Plain (Prim (PStr ''center''))\<rparr>]),
        (comment, [\<lparr>startIndex = 0, endIndex = 5, val = Plain (Prim (PStr ''a''))\<rparr>])]"
    by code_simp
  show ?thesis using n t li m1 m2 by simp
qed

section \<open>discard and the length limit of arrays\<close>

lemma max_array_length_nonneg: "0 \<le> max_array_length"
  by (simp add: max_array_length_def)

lemma length_fill: "length (fill v s e xs) = length xs"
  by (simp add: fill_def Let_def rel_index_def)

lemma length_set_length: "length (set_length n xs) = n"
  by (simp add: set_length_def)

lemma tile_step_checked_eq:
  assumes "int (length vs) \<le> max_array_length"
  shows "tile_step_checked vs r
           = (if max_array_length < endIndex r then Inl RangeError else Inr (tile_step vs r))"
  using assms
  by (simp add: tile_step_checked_def set_length_checked_def tile_step_def max_def)

lemma length_tile_step:
  "length (tile_step vs r) = nat (max (int (length vs)) (endIndex r))"
  by (simp add: tile_step_def length_fill length_set_length)

lemma tile_loop_checked_eq:
  assumes "int (length vs) \<le> max_array_length"
  shows "tile_loop_checked vs ranges
           = (if exceeds ranges then Inl RangeError else Inr (foldl tile_step vs ranges))"
  using assms
proof (induction ranges arbitrary: vs)
  case Nil
  then show ?case by (simp add: exceeds_def)
next
  case (Cons r ranges)
  show ?case
  proof (cases "max_array_length < endIndex r")
    case True
    then show ?thesis using Cons.prems by (simp add: tile_step_checked_eq exceeds_def)
  next
    case False
    have "int (length (tile_step vs r)) \<le> max_array_length"
      using False Cons.prems by (simp add: length_tile_step)
    from Cons.IH[OF this] show ?thesis
      using False Cons.prems by (simp add: tile_step_checked_eq exceeds_def)
  qed
qed

lemma length_foldl_tile:
  "int (length vs) \<le> max_array_length \<Longrightarrow> \<not> exceeds ranges \<Longrightarrow>
   int (length (foldl tile_step vs ranges)) \<le> max_array_length"
proof (induction ranges arbitrary: vs)
  case Nil
  then show ?case by simp
next
  case (Cons r ranges)
  have "int (length (tile_step vs r)) \<le> max_array_length"
    using Cons.prems by (simp add: length_tile_step exceeds_def)
  moreover have "\<not> exceeds ranges" using Cons.prems by (simp add: exceeds_def)
  ultimately show ?case using Cons.IH by simp
qed

lemma tileRanges_checked_eq:
  "tileRanges_checked len ranges
     = (if exceeds ranges then Inl RangeError else Inr (tileRanges len ranges))"
proof (cases "exceeds ranges")
  case True
  then show ?thesis
    by (simp add: tileRanges_checked_def tile_loop_checked_eq max_array_length_nonneg)
next
  case False
  have l: "int (length (foldl tile_step [] ranges)) \<le> max_array_length"
    using length_foldl_tile[of "[]" ranges] False by (simp add: max_array_length_nonneg)
  have "min (int (length (foldl tile_step [] ranges))) (int len) \<le> max_array_length"
    using l by simp
  moreover have "nat (min (int (length (foldl tile_step [] ranges))) (int len))
      = min (length (foldl tile_step [] ranges)) len" by simp
  ultimately show ?thesis
    using False
    by (simp add: tileRanges_checked_def tile_loop_checked_eq max_array_length_nonneg
        set_length_checked_def tileRanges_def Let_def)
qed

lemma tile_groups_checked_eq:
  "tile_groups_checked len groups
     = (if \<exists>item \<in> set groups. exceeds item then Inl RangeError
        else Inr (concat (map (\<lambda>item. toRanges (tileRanges len item)) groups)))"
  by (induction groups) (simp_all add: tileRanges_checked_eq)

lemma clean_group_checked_sound:
  "clean_group_checked len nr v m = Inr m' \<Longrightarrow>
   m' = update_first (\<lambda>item. equal item v)
          (\<lambda>g. toRanges (replicate (nat (endIndex nr - startIndex nr)) None)) m"
proof (induction m arbitrary: m')
  case Nil
  then show ?case by simp
next
  case (Cons a m)
  obtain item g where a: "a = (item, g)" by (cases a)
  show ?case
  proof (cases "equal item v")
    case True
    then show ?thesis using Cons.prems a
      by (auto simp: array_from_length_def split: sum.splits if_splits)
  next
    case False
    then show ?thesis using Cons.prems Cons.IH a
      by (auto split: sum.splits)
  qed
qed

lemma normalize_checked_sound:
  assumes "normalizeFormatRange_checked len f rs nr = Inr r"
  shows "r = normalizeFormatRange len f rs nr"
proof (cases "overlap f")
  case True
  then show ?thesis using assms
    by (simp add: normalizeFormatRange_checked_def normalizeFormatRange_def Let_def
        tile_groups_checked_eq split: if_splits)
next
  case False
  then show ?thesis using assms
    by (auto simp: normalizeFormatRange_checked_def normalizeFormatRange_def Let_def
        tileRanges_checked_eq dest!: clean_group_checked_sound
        split: if_splits option.splits sval.splits sum.splits)
qed

lemma exceeds_append: "exceeds (xs @ ys) = (exceeds xs \<or> exceeds ys)"
  by (auto simp: exceeds_def)

lemma exceeds_lift: "exceeds (map lift rs) = exceeds rs"
  by (simp add: exceeds_def lift_def)

lemma exceeds_single: "exceeds [r] = (max_array_length < endIndex r)"
  by (simp add: exceeds_def)

lemma group_insert_cover:
  "(\<Union>(k, g) \<in> set (group_insert item m). set g) = insert item (\<Union>(k, g) \<in> set m. set g)"
proof (induction m)
  case Nil
  then show ?case by simp
next
  case (Cons a m)
  obtain k g where a: "a = (k, g)" by (cases a)
  show ?case
  proof (cases "equal k (val item)")
    case True
    then show ?thesis using a by auto
  next
    case False
    then show ?thesis using a Cons.IH by auto
  qed
qed

lemma formatRangesToMap_cover_aux:
  "(\<Union>(k, g) \<in> set (foldl (\<lambda>m item. group_insert item m) m0 rs). set g)
     = (\<Union>(k, g) \<in> set m0. set g) \<union> set rs"
proof (induction rs arbitrary: m0)
  case Nil
  then show ?case by simp
next
  case (Cons r rs)
  show ?case unfolding foldl_Cons Cons.IH group_insert_cover by auto
qed

lemma formatRangesToMap_cover:
  "(\<Union>(k, g) \<in> set (formatRangesToMap rs). set g) = set rs"
  using formatRangesToMap_cover_aux[of "[]" rs] by (simp add: formatRangesToMap_def)

lemma formatRangesToMap_Nil_iff: "formatRangesToMap rs = [] \<longleftrightarrow> rs = []"
  using formatRangesToMap_nonempty[of rs] by (auto simp: formatRangesToMap_def)

lemma groups_exceed:
  "(\<exists>x \<in> set (formatRangesToMap rs). exceeds (snd x)) = exceeds rs"
proof -
  have "(\<exists>x \<in> set (formatRangesToMap rs). exceeds (snd x))
      = (\<exists>r \<in> (\<Union>(k, g) \<in> set (formatRangesToMap rs). set g). max_array_length < endIndex r)"
    by (force simp: exceeds_def)
  then show ?thesis unfolding formatRangesToMap_cover by (simp add: exceeds_def)
qed

lemma discard_normalize_eq:
  "normalizeFormatRange_checked len f rs (Some \<lparr>startIndex = s, endIndex = e, val = None\<rparr>)
     = (if (overlap f \<longrightarrow> rs \<noteq> []) \<and> (max_array_length < e \<or> exceeds rs)
        then Inl RangeError
        else Inr (normalizeFormatRange len f rs
                    (Some \<lparr>startIndex = s, endIndex = e, val = None\<rparr>)))"
proof (cases "overlap f")
  case False
  then show ?thesis
    by (auto simp: normalizeFormatRange_checked_def normalizeFormatRange_def
        tileRanges_checked_eq exceeds_append exceeds_lift exceeds_single)
next
  case True
  let ?nr = "\<lparr>startIndex = s, endIndex = e, val = None :: fvalue\<rparr>"
  let ?gs = "map (\<lambda>(k, g). map lift g @ [?nr]) (formatRangesToMap rs)"
  have ex: "(\<exists>item \<in> set ?gs. exceeds item)
      = (rs \<noteq> [] \<and> (max_array_length < e \<or> exceeds rs))"
  proof -
    have pt: "exceeds (case x of (k, g) \<Rightarrow> map lift g @ [?nr])
        = (exceeds (snd x) \<or> max_array_length < e)" for x :: "sval \<times> sval frange list"
      by (cases x) (simp add: exceeds_append exceeds_lift exceeds_single)
    have "(\<exists>item \<in> set ?gs. exceeds item)
        = (\<exists>x \<in> set (formatRangesToMap rs). exceeds (snd x) \<or> max_array_length < e)"
      by (simp add: pt)
    also have "\<dots> = ((\<exists>x \<in> set (formatRangesToMap rs). exceeds (snd x))
         \<or> (formatRangesToMap rs \<noteq> [] \<and> max_array_length < e))"
      by (cases "formatRangesToMap rs") auto
    also have "\<dots> = (exceeds rs \<or> (rs \<noteq> [] \<and> max_array_length < e))"
      by (simp only: groups_exceed formatRangesToMap_Nil_iff)
    also have "\<dots> = (rs \<noteq> [] \<and> (max_array_length < e \<or> exceeds rs))"
      by (auto simp: exceeds_def)
    finally show ?thesis .
  qed
  show ?thesis
    using True ex
    by (simp add: normalizeFormatRange_checked_def normalizeFormatRange_def
        tile_groups_checked_eq Let_def)
qed

lemma discard_cases:
  "discard this fmt start end =
     (case map_get (fmt_map this) fmt of
        None \<Rightarrow> Inr this
      | Some rs \<Rightarrow>
          if (overlap fmt \<longrightarrow> rs \<noteq> []) \<and>
             (max_array_length < end \<or> (\<exists>r \<in> set rs. max_array_length < endIndex r))
          then Inl RangeError else Inr this)"
  by (simp add: discard_def discard_normalize_eq exceeds_def split: option.splits)

text \<open>
  C10, as the claim states it, fails: with \<open>endIndex = 2\<^sup>3\<^sup>2\<close> the tiling inside
  \<open>normalizeFormatRange\<close> assigns \<open>2\<^sup>3\<^sup>2\<close> to the length of an array, and \<open>discard\<close>
  throws a \<open>RangeError\<close> instead of returning the store.
\<close>

theorem discard_throws_beyond_array_length:
  "discard scenarioD bold 0 4294967296 = Inl RangeError \<and>
   discard scenarioD bold 0 4294967296 \<noteq> Inr scenarioD"
proof -
  have "discard scenarioD bold 0 4294967296 = Inl RangeError" by code_simp
  then show ?thesis by simp
qed

text \<open>
  C10, amended. \<open>discard\<close> either returns the store itself, with its mapping exactly as
  it was (the normalized ranges are never written back), or throws a \<open>RangeError\<close>; it
  throws exactly when the formatter is a key of the map (for an overlap formatter, with a
  non-empty list) and \<open>endIndex\<close>, or the \<open>endIndex\<close> of a range stored for the formatter,
  is greater than \<open>2\<^sup>3\<^sup>2 - 1\<close>. In particular it returns the store whenever none of
  these indices is greater than \<open>2\<^sup>3\<^sup>2 - 1\<close>.
\<close>

theorem discard_frame:
  "(discard this fmt start end = Inr this \<or> discard this fmt start end = Inl RangeError) \<and>
   (discard this fmt start end = Inl RangeError \<longleftrightarrow>
      (case map_get (fmt_map this) fmt of
         None \<Rightarrow> False
       | Some rs \<Rightarrow>
           (overlap fmt \<longrightarrow> rs \<noteq> []) \<and>
           (max_array_length < end \<or> (\<exists>r \<in> set rs. max_array_length < endIndex r)))) \<and>
   (end \<le> max_array_length \<and>
    (\<forall>r \<in> set (stored_ranges this fmt). endIndex r \<le> max_array_length)
      \<longrightarrow> discard this fmt start end = Inr this)"
proof -
  note c = discard_cases[of this fmt start "end"]
  show ?thesis
  proof (cases "map_get (fmt_map this) fmt")
    case None
    then show ?thesis using c by simp
  next
    case (Some rs)
    then show ?thesis using c by (auto simp: stored_ranges_def not_le)
  qed
qed

theorem discard_frame_witness:
  "(4::int) \<le> max_array_length \<and> (10::int) \<le> max_array_length \<and>
   stored_ranges scenarioD bold = [\<lparr>startIndex = 0, endIndex = 10, val = vtrue\<rparr>] \<and>
   discard scenarioD bold 0 4 = Inr scenarioD \<and>
   discard scenarioD bold 0 4 \<noteq> Inl RangeError"
proof -
  have a: "(4::int) \<le> max_array_length" "(10::int) \<le> max_array_length"
    by (simp_all add: max_array_length_def)
  have s: "stored_ranges scenarioD bold = [\<lparr>startIndex = 0, endIndex = 10, val = vtrue\<rparr>]"
    by (simp add: stored_ranges_def scenarioD_def map_get_def)
  have b: "\<forall>r \<in> set (stored_ranges scenarioD bold). endIndex r \<le> max_array_length"
    using a by (simp add: s)
  have "discard scenarioD bold 0 4 = Inr scenarioD"
    using discard_frame[of scenarioD bold 0 4] a b by blast
  then show ?thesis using a s by simp
qed

section \<open>Format.equal is an equivalence, and formatRangesToMap groups by it\<close>

lemma props_equal:
  "(fcard (fmdom l) = fcard (fmdom r) \<and>
    fBall (fmdom l) (\<lambda>key. key |\<in>| fmdom r \<and> fmlookup r key = fmlookup l key))
     \<longleftrightarrow> l = r"
proof
  assume a: "fcard (fmdom l) = fcard (fmdom r) \<and>
    fBall (fmdom l) (\<lambda>key. key |\<in>| fmdom r \<and> fmlookup r key = fmlookup l key)"
  then have sub: "fmdom l |\<subseteq>| fmdom r" by auto
  have d: "fmdom l = fmdom r" using sub a by (metis fcard_seteq order_refl)
  have "fmlookup l k = fmlookup r k" for k
  proof (cases "k |\<in>| fmdom l")
    case True
    then show ?thesis using a by auto
  next
    case False
    then show ?thesis using d by (metis fmdom_notD)
  qed
  then show "l = r" by (rule fmap_ext)
qed auto

lemma equal_iff:
  "equal a b \<longleftrightarrow> a = b \<or> (\<exists>p. own_props a = Some p \<and> own_props b = Some p)"
proof (cases "a = b")
  case True
  then show ?thesis by (simp add: equal_def)
next
  case False
  show ?thesis
  proof (cases "own_props a")
    case None
    then show ?thesis using False by (simp add: equal_def)
  next
    case l: (Some l)
    show ?thesis
    proof (cases "own_props b")
      case None
      then show ?thesis using False l by (simp add: equal_def)
    next
      case r: (Some r)
      have "equal a b \<longleftrightarrow> (fcard (fmdom l) = fcard (fmdom r) \<and>
          fBall (fmdom l) (\<lambda>key. key |\<in>| fmdom r \<and> fmlookup r key = fmlookup l key))"
        using False l r by (simp add: equal_def)
      then show ?thesis using False l r by (simp only: props_equal) auto
    qed
  qed
qed

lemma equal_sym: "equal a b \<Longrightarrow> equal b a"
  by (auto simp: equal_iff)

lemma equal_trans: "equal a b \<Longrightarrow> equal b c \<Longrightarrow> equal a c"
  by (auto simp: equal_iff)

lemma with_value_cong: "equal v w \<Longrightarrow> with_value v rs = with_value w rs"
proof -
  assume e: "equal v w"
  have "equal v x = equal w x" for x
    using e equal_trans[of v w x] equal_trans[of w v x] equal_sym[of v w] by blast
  then show ?thesis by (simp add: with_value_def)
qed

lemma with_value_append: "with_value v (xs @ ys) = with_value v xs @ with_value v ys"
  by (simp add: with_value_def)

lemma group_insert_fresh:
  "\<forall>a \<in> set m. \<not> equal (fst a) (val item) \<Longrightarrow>
   group_insert item m = m @ [(val item, [item])]"
  by (induction m) auto

lemma group_insert_found:
  "sorted_wrt (\<lambda>a b. \<not> equal (fst a) (fst b)) m \<Longrightarrow> \<exists>a \<in> set m. equal (fst a) (val item) \<Longrightarrow>
   group_insert item m
     = map (\<lambda>(k, g). (k, if equal k (val item) then g @ [item] else g)) m"
proof (induction m)
  case Nil
  then show ?case by simp
next
  case (Cons a m)
  obtain k g where a: "a = (k, g)" by (cases a)
  show ?case
  proof (cases "equal k (val item)")
    case True
    have "\<not> equal (fst b) (val item)" if "b \<in> set m" for b
    proof
      assume "equal (fst b) (val item)"
      then have "equal k (fst b)" using True equal_sym equal_trans by blast
      then show False using Cons.prems(1) that a by auto
    qed
    then have "map (\<lambda>(k, g). (k, if equal k (val item) then g @ [item] else g)) m = m"
      by (intro map_idI) auto
    then show ?thesis using True a by simp
  next
    case False
    then have "\<exists>a \<in> set m. equal (fst a) (val item)" using Cons.prems(2) a by auto
    moreover have "sorted_wrt (\<lambda>a b. \<not> equal (fst a) (fst b)) m" using Cons.prems(1) by simp
    ultimately show ?thesis using Cons.IH False a by simp
  qed
qed

lemma grouped_insert:
  assumes "grouped p m"
  shows "grouped (p @ [item]) (group_insert item m)"
proof (cases "\<exists>a \<in> set m. equal (fst a) (val item)")
  case False
  then have gi: "group_insert item m = m @ [(val item, [item])]"
    using group_insert_fresh by blast
  have none: "with_value (val item) p = []"
  proof -
    have "\<not> equal (val item) (val r)" if "r \<in> set p" for r
    proof
      assume e: "equal (val item) (val r)"
      from assms that obtain k g where kg: "(k, g) \<in> set m" "equal k (val r)"
        by (auto simp: grouped_def)
      then have "equal k (val item)" using e equal_sym equal_trans by blast
      then show False using False kg(1) by force
    qed
    then show ?thesis by (simp add: with_value_def)
  qed
  have old: "with_value k (p @ [item]) = with_value k p" if "(k, g) \<in> set m" for k g
    using False that by (force simp: with_value_def)
  have s: "sorted_wrt (\<lambda>a b. \<not> equal (fst a) (fst b)) (m @ [(val item, [item])])"
    using assms False by (auto simp: grouped_def sorted_wrt_append)
  have g: "\<forall>(k, g) \<in> set (m @ [(val item, [item])]). g \<noteq> [] \<and> g = with_value k (p @ [item])"
    using assms old none by (auto simp: grouped_def with_value_def equal_refl)
  have c: "\<forall>r \<in> set (p @ [item]). \<exists>(k, g) \<in> set (m @ [(val item, [item])]). equal k (val r)"
    using assms by (auto simp: grouped_def equal_refl)
  show ?thesis unfolding gi grouped_def using s g c by blast
next
  case True
  let ?f = "\<lambda>(k, g). (k, if equal k (val item) then g @ [item] else g)"
  have sw: "sorted_wrt (\<lambda>a b. \<not> equal (fst a) (fst b)) m" using assms by (simp add: grouped_def)
  have gi: "group_insert item m = map ?f m"
    using group_insert_found[OF sw True] .
  have fst: "fst (?f a) = fst a" for a by (cases a) simp
  have s: "sorted_wrt (\<lambda>a b. \<not> equal (fst a) (fst b)) (map ?f m)"
    using sw by (simp add: sorted_wrt_map fst)
  have g: "\<forall>(k, g) \<in> set (map ?f m). g \<noteq> [] \<and> g = with_value k (p @ [item])"
  proof -
    have "g' \<noteq> [] \<and> g' = with_value k' (p @ [item])" if "(k', g') \<in> set (map ?f m)" for k' g'
    proof -
      from that obtain g0 where m: "(k', g0) \<in> set m"
        and g': "g' = (if equal k' (val item) then g0 @ [item] else g0)" by auto
      have g0: "g0 \<noteq> []" "g0 = with_value k' p" using assms m by (auto simp: grouped_def)
      have "with_value k' (p @ [item]) = (if equal k' (val item) then g0 @ [item] else g0)"
        using g0(2) by (simp add: with_value_def)
      then show ?thesis using g' g0(1) by simp
    qed
    then show ?thesis by blast
  qed
  have c: "\<forall>r \<in> set (p @ [item]). \<exists>(k, g) \<in> set (map ?f m). equal k (val r)"
  proof
    fix r assume "r \<in> set (p @ [item])"
    then have "\<exists>a \<in> set m. equal (fst a) (val r)"
      using assms True by (auto simp: grouped_def case_prod_unfold)
    then obtain a where "a \<in> set m" "equal (fst a) (val r)" by blast
    then have "?f a \<in> set (map ?f m)" "equal (fst (?f a)) (val r)" by (auto simp: fst)
    then show "\<exists>(k, g) \<in> set (map ?f m). equal k (val r)" by (metis (mono_tags, lifting) case_prodI2 fst_conv)
  qed
  show ?thesis unfolding gi grouped_def using s g c by blast
qed

lemma grouped_foldl:
  "grouped p m \<Longrightarrow> grouped (p @ rs) (foldl (\<lambda>m item. group_insert item m) m rs)"
proof (induction rs arbitrary: p m)
  case Nil
  then show ?case by simp
next
  case (Cons r rs)
  from Cons.IH[OF grouped_insert[OF Cons.prems, of r]] show ?case by simp
qed

lemma formatRangesToMap_grouped: "grouped rs (formatRangesToMap rs)"
  using grouped_foldl[of "[]" "[]" rs] by (simp add: formatRangesToMap_def grouped_def)

subsection \<open>The values of a tiling and of its ranges\<close>

lemma set_set_length: "set (set_length n xs) \<subseteq> insert None (set xs)"
  using set_take_subset[of n xs] by (auto simp: set_length_def)

lemma set_fill: "set (fill v s e xs) \<subseteq> insert v (set xs)"
proof -
  have "set (take a xs) \<subseteq> set xs" "set (drop b xs) \<subseteq> set xs" for a b
    by (auto dest: in_set_takeD in_set_dropD)
  then show ?thesis by (auto simp: fill_def Let_def)
qed

lemma set_tile_step: "set (tile_step vs r) \<subseteq> insert (val r) (insert None (set vs))"
  unfolding tile_step_def
  using set_fill[of "val r" "startIndex r" "endIndex r"] set_set_length[of _ vs] by blast

lemma set_foldl_tile:
  "set (foldl tile_step vs rs) \<subseteq> insert None (set vs \<union> val ` set rs)"
proof (induction rs arbitrary: vs)
  case Nil
  then show ?case by auto
next
  case (Cons r rs)
  show ?case using Cons.IH[of "tile_step vs r"] set_tile_step[of vs r] by auto
qed

lemma set_tileRanges: "set (tileRanges len rs) \<subseteq> insert None (val ` set rs)"
  unfolding tileRanges_def Let_def
  using set_set_length[of _ "foldl tile_step [] rs"] set_foldl_tile[of "[]" rs] by auto

lemma toRanges_loop_values:
  "r \<in> set (toRanges_loop i vs cur) \<Longrightarrow>
   Some (val r) \<in> set vs \<or> (\<exists>c. cur = Some c \<and> val c = val r)"
proof (induction vs arbitrary: i cur)
  case Nil
  then show ?case by (auto split: option.splits)
next
  case (Cons x vs)
  show ?case
  proof (cases x)
    case None
    then have "(\<exists>c. cur = Some c \<and> r = c) \<or> r \<in> set (toRanges_loop (Suc i) vs None)"
      using Cons.prems by (auto split: option.splits)
    then show ?thesis using Cons.IH[of "Suc i" None] by auto
  next
    case (Some item)
    let ?n = "\<lparr>startIndex = int i, endIndex = int i + 1, val = item\<rparr>"
    have new: "r \<in> set (toRanges_loop (Suc i) vs (Some ?n)) \<Longrightarrow> Some (val r) \<in> set (x # vs)"
      using Cons.IH[of "Suc i" "Some ?n"] Some by auto
    show ?thesis
    proof (cases cur)
      case None
      then show ?thesis using Cons.prems Some new by simp
    next
      case c: (Some c)
      show ?thesis
      proof (cases "equal (val c) item")
        case True
        then have "r \<in> set (toRanges_loop (Suc i) vs (Some (c\<lparr>endIndex := int i + 1\<rparr>)))"
          using Cons.prems Some c by simp
        from Cons.IH[OF this] show ?thesis using c by auto
      next
        case False
        then have "r = c \<or> r \<in> set (toRanges_loop (Suc i) vs (Some ?n))"
          using Cons.prems Some c by simp
        then show ?thesis using new c by auto
      qed
    qed
  qed
qed

lemma tiled_values:
  assumes "r \<in> set (toRanges (tileRanges len (map lift g)))"
  shows "\<exists>r0 \<in> set g. val r = val r0"
proof -
  have "Some (val r) \<in> set (tileRanges len (map lift g))"
    using toRanges_loop_values[of r 0 _ None] assms by (simp add: toRanges_def)
  then have "Some (val r) \<in> val ` set (map lift g)" using set_tileRanges[of len "map lift g"] by auto
  then show ?thesis by (auto simp: lift_def)
qed

subsection \<open>The ranges of one value after the groups are tiled\<close>

lemma with_value_concat:
  "with_value v (concat xss) = concat (map (with_value v) xss)"
  by (simp add: with_value_def[abs_def] filter_concat)

lemma single_group:
  assumes "sorted_wrt (\<lambda>a b. \<not> equal (fst a) (fst b)) m" and "a \<in> set m" and "equal v (fst a)"
  shows "concat (map (\<lambda>b. if equal v (fst b) then F b else []) m) = F a"
  using assms(1,2)
proof (induction m)
  case Nil
  then show ?case by simp
next
  case (Cons b m)
  show ?case
  proof (cases "a = b")
    case True
    have "\<not> equal v (fst c)" if "c \<in> set m" for c
    proof
      assume "equal v (fst c)"
      then have "equal (fst b) (fst c)" using assms(3) True equal_sym equal_trans by blast
      then show False using Cons.prems(1) that by auto
    qed
    then have "concat (map (\<lambda>b. if equal v (fst b) then F b else []) m) = []" by simp
    then show ?thesis using True assms(3) by simp
  next
    case False
    then have am: "a \<in> set m" using Cons.prems(2) by simp
    then have "\<not> equal (fst b) (fst a)" using Cons.prems(1) by auto
    then have "\<not> equal v (fst b)" using assms(3) equal_sym equal_trans by blast
    moreover have "sorted_wrt (\<lambda>a b. \<not> equal (fst a) (fst b)) m" using Cons.prems(1) by simp
    ultimately show ?thesis using Cons.IH am by simp
  qed
qed

lemma tiled_groups_with_value:
  assumes "grouped rs m"
  shows "with_value v (concat (map (\<lambda>(k, g). toRanges (tileRanges len (map lift g))) m))
           = toRanges (tileRanges len (map lift (with_value v rs)))"
proof -
  let ?out = "\<lambda>a. toRanges (tileRanges len (map lift (snd a)))"
  have sw: "sorted_wrt (\<lambda>a b. \<not> equal (fst a) (fst b)) m" using assms by (simp add: grouped_def)
  have grp: "snd a = with_value (fst a) rs" if "a \<in> set m" for a
    using assms that by (auto simp: grouped_def)
  have vals: "equal (fst a) (val r)" if "a \<in> set m" "r \<in> set (?out a)" for a r
  proof -
    from tiled_values[OF that(2)] obtain r0 where "r0 \<in> set (snd a)" "val r = val r0" by blast
    then show ?thesis using grp[OF that(1)] by (simp add: with_value_def)
  qed
  have one: "with_value v (?out a) = (if equal v (fst a) then ?out a else [])" if "a \<in> set m" for a
  proof (cases "equal v (fst a)")
    case True
    then have "\<forall>r \<in> set (?out a). equal v (val r)" using vals[OF that] equal_trans by blast
    then show ?thesis using True by (simp add: with_value_def)
  next
    case False
    have "\<not> equal v (val r)" if r: "r \<in> set (?out a)" for r
    proof
      assume "equal v (val r)"
      then have "equal v (fst a)" using vals[OF \<open>a \<in> set m\<close> r] equal_sym equal_trans by blast
      then show False using False by simp
    qed
    then show ?thesis using False by (simp add: with_value_def)
  qed
  have "with_value v (concat (map (\<lambda>(k, g). toRanges (tileRanges len (map lift g))) m))
      = concat (map (\<lambda>a. with_value v (?out a)) m)"
    by (simp add: with_value_concat comp_def case_prod_unfold)
  also have "\<dots> = concat (map (\<lambda>a. if equal v (fst a) then ?out a else []) m)"
    using one by (simp cong: map_cong)
  finally have lhs: "with_value v (concat (map (\<lambda>(k, g). toRanges (tileRanges len (map lift g))) m))
      = concat (map (\<lambda>a. if equal v (fst a) then ?out a else []) m)" .
  show ?thesis
  proof (cases "\<exists>a \<in> set m. equal v (fst a)")
    case True
    then obtain a where a: "a \<in> set m" "equal v (fst a)" by blast
    have "with_value v rs = snd a" using grp[OF a(1)] with_value_cong[OF a(2)] by simp
    then show ?thesis using lhs single_group[OF sw a, of ?out] by simp
  next
    case False
    then have "concat (map (\<lambda>a. if equal v (fst a) then ?out a else []) m) = []" by simp
    moreover have "with_value v rs = []"
    proof -
      have "\<not> equal v (val r)" if "r \<in> set rs" for r
      proof
        assume e: "equal v (val r)"
        from assms that obtain a where "a \<in> set m" "equal (fst a) (val r)"
          by (auto simp: grouped_def case_prod_unfold)
        then show False using False e equal_sym equal_trans by blast
      qed
      then show ?thesis by (simp add: with_value_def)
    qed
    moreover have "toRanges (tileRanges len []) = []"
      by (simp add: tileRanges_def toRanges_def set_length_def)
    ultimately show ?thesis using lhs by simp
  qed
qed

lemma normalize_overlap_with_value:
  assumes "overlap f"
  shows "with_value v (normalizeFormatRange len f rs None)
           = toRanges (tileRanges len (map lift (with_value v rs)))"
proof -
  have "normalizeFormatRange len f rs None
      = concat (map (\<lambda>(k, g). toRanges (tileRanges len (map lift g))) (formatRangesToMap rs))"
    using assms by (simp add: normalizeFormatRange_def comp_def case_prod_unfold)
  then show ?thesis using tiled_groups_with_value[OF formatRangesToMap_grouped] by simp
qed

section \<open>shrink: the normal form of the lists it leaves\<close>

lemma length_tileRanges: "length (tileRanges len rs) \<le> len"
  by (simp add: tileRanges_def Let_def set_length_def)

lemma toRanges_loop_upper:
  "r \<in> set (toRanges_loop i vs cur) \<Longrightarrow> (\<forall>c. cur = Some c \<longrightarrow> endIndex c \<le> int i) \<Longrightarrow>
   endIndex r \<le> int (i + length vs)"
proof (induction vs arbitrary: i cur)
  case Nil
  then show ?case by (auto split: option.splits)
next
  case (Cons x vs)
  show ?case
  proof (cases x)
    case None
    from Cons.prems(1) None
    have "(\<exists>c. cur = Some c \<and> r = c) \<or> r \<in> set (toRanges_loop (Suc i) vs None)"
      by (auto split: option.splits)
    then show ?thesis
    proof
      assume "\<exists>c. cur = Some c \<and> r = c"
      then show ?thesis using Cons.prems(2) by auto
    next
      assume "r \<in> set (toRanges_loop (Suc i) vs None)"
      from Cons.IH[OF this] show ?thesis by simp
    qed
  next
    case (Some item)
    let ?n = "\<lparr>startIndex = int i, endIndex = int i + 1, val = item\<rparr>"
    have new: "r \<in> set (toRanges_loop (Suc i) vs (Some ?n)) \<Longrightarrow> ?thesis"
      using Cons.IH[of "Suc i" "Some ?n"] by simp
    show ?thesis
    proof (cases cur)
      case None
      then show ?thesis using Cons.prems(1) Some new by simp
    next
      case c: (Some c)
      show ?thesis
      proof (cases "equal (val c) item")
        case True
        then have "r \<in> set (toRanges_loop (Suc i) vs (Some (c\<lparr>endIndex := int i + 1\<rparr>)))"
          using Cons.prems(1) Some c by simp
        from Cons.IH[OF this] show ?thesis by simp
      next
        case False
        then have "r = c \<or> r \<in> set (toRanges_loop (Suc i) vs (Some ?n))"
          using Cons.prems(1) Some c by simp
        then show ?thesis using new Cons.prems(2) c by auto
      qed
    qed
  qed
qed

lemma toRanges_within: "r \<in> set (toRanges vs) \<Longrightarrow> within_slot (length vs) r"
  using normal_from_bounds[OF toRanges_normal, of r vs] toRanges_loop_upper[of r 0 vs None]
  by (simp add: toRanges_def within_slot_def)

lemma tiled_within:
  assumes "r \<in> set (toRanges (tileRanges len item))"
  shows "within_slot len r"
proof -
  have "within_slot (length (tileRanges len item)) r" using assms by (rule toRanges_within)
  then show ?thesis using length_tileRanges[of len item] by (simp add: within_slot_def)
qed

lemma normalize_overlap_groups:
  "overlap f \<Longrightarrow> \<exists>groups. normalizeFormatRange len f rs nr
     = concat (map (\<lambda>item. toRanges (tileRanges len item)) groups)"
  unfolding normalizeFormatRange_def Let_def by (simp only: if_True) blast

lemma normalize_no_overlap_tiled:
  "\<not> overlap f \<Longrightarrow> \<exists>item. normalizeFormatRange len f rs nr = toRanges (tileRanges len item)"
  unfolding normalizeFormatRange_def Let_def by (simp only: if_False) blast

lemma normalize_within:
  assumes "r \<in> set (normalizeFormatRange len f rs nr)"
  shows "within_slot len r"
proof (cases "overlap f")
  case True
  then obtain groups where "normalizeFormatRange len f rs nr
     = concat (map (\<lambda>item. toRanges (tileRanges len item)) groups)"
    using normalize_overlap_groups by blast
  then obtain item where "r \<in> set (toRanges (tileRanges len item))" using assms by auto
  then show ?thesis by (rule tiled_within)
next
  case False
  then obtain item where "normalizeFormatRange len f rs nr = toRanges (tileRanges len item)"
    using normalize_no_overlap_tiled by blast
  then have "r \<in> set (toRanges (tileRanges len item))" using assms by simp
  then show ?thesis by (rule tiled_within)
qed

lemma normalize_shape:
  "(\<not> overlap f \<longrightarrow> list_invariant (normalizeFormatRange len f rs None)) \<and>
   (overlap f \<longrightarrow> (\<forall>v. list_invariant (with_value v (normalizeFormatRange len f rs None))))"
proof (cases "overlap f")
  case True
  have "list_invariant (with_value v (normalizeFormatRange len f rs None))" for v
    unfolding normalize_overlap_with_value[OF True]
    using toRanges_normal by (rule normal_from_list_invariant)
  then show ?thesis using True by blast
next
  case False
  then obtain cells where "normalizeFormatRange len f rs None = toRanges cells"
    using normalize_no_overlap by blast
  then show ?thesis using False normal_from_list_invariant[OF toRanges_normal] by simp
qed

lemma length_trim: "length (trim xs) \<le> length xs"
  by (induction xs) auto

lemma tile_toRanges_trim:
  assumes "length v \<le> len"
  shows "tileRanges len (map lift (toRanges v)) = trim (canon None v)"
proof -
  have "foldl tile_step [] (map lift (toRanges_loop 0 v None))
          = (if trim v = [] then [] else pad 0 [] @ trim (canon None v))"
    using roundtrip_loop[of None "[]" 0 v] by simp
  moreover have "trim v = [] \<Longrightarrow> trim (canon None v) = []"
    by (simp add: trim_canon_Nil)
  ultimately have f: "foldl tile_step [] (map lift (toRanges v)) = trim (canon None v)"
    by (auto simp: toRanges_def pad_def)
  have "length (trim (canon None v)) \<le> len"
    using length_trim[of "canon None v"] assms by (simp add: length_canon)
  then show ?thesis by (simp add: tileRanges_def Let_def f set_length_def)
qed

lemma cell_equal_None: "cell_equal x y \<Longrightarrow> (x = None) = (y = None)"
  by (auto simp: cell_equal_def split: option.splits)

lemma trim_cell_equal:
  "list_all2 cell_equal xs ys \<Longrightarrow> list_all2 cell_equal (trim xs) (trim ys)"
proof (induction rule: list_all2_induct)
  case Nil
  then show ?case by simp
next
  case (Cons x xs y ys)
  have "(trim xs = []) = (trim ys = [])"
    using list_all2_lengthD[OF Cons.IH] by auto
  then show ?case using Cons cell_equal_None[of x y] by auto
qed

lemma tiled_content:
  "list_all2 cell_equal
     (tileRanges len (map lift (toRanges (tileRanges len xs))))
     (trim (tileRanges len xs))"
proof -
  let ?v = "tileRanges len xs"
  have "tileRanges len (map lift (toRanges ?v)) = trim (canon None ?v)"
    using length_tileRanges by (rule tile_toRanges_trim)
  moreover have "list_all2 cell_equal (trim (canon None ?v)) (trim ?v)"
    using canon_cell_equal by (rule trim_cell_equal)
  ultimately show ?thesis by simp
qed

lemma normalize_content:
  "(\<not> overlap f \<longrightarrow>
      list_all2 cell_equal
        (tileRanges len (map lift (normalizeFormatRange len f rs None)))
        (trim (tileRanges len (map lift rs)))) \<and>
   (overlap f \<longrightarrow>
      (\<forall>v. list_all2 cell_equal
        (tileRanges len (map lift (with_value v (normalizeFormatRange len f rs None))))
        (trim (tileRanges len (map lift (with_value v rs))))))"
proof (cases "overlap f")
  case True
  show ?thesis
    using True tiled_content by (simp only: normalize_overlap_with_value[OF True]) simp
next
  case False
  have n: "normalizeFormatRange len f rs None = toRanges (tileRanges len (map lift rs))"
    using False by (simp add: normalizeFormatRange_def)
  show ?thesis using False tiled_content by (simp only: n) simp
qed

lemma renormalized_absent:
  "f \<notin> fst ` set m \<Longrightarrow> map_get (renormalized len m) f = None"
  by (induction m) (auto simp: renormalized_def map_get_def)

lemma renormalized_lookup:
  assumes "distinct (map fst m)" and "(f, rs) \<in> set m"
  shows "map_get (renormalized len m) f
           = (if normalizeFormatRange len f rs None = [] then None
              else Some (normalizeFormatRange len f rs None))"
  using assms
proof (induction m)
  case Nil
  then show ?case by simp
next
  case (Cons a m)
  obtain k r where a: "a = (k, r)" by (cases a)
  have step: "renormalized len (a # m)
      = (if normalizeFormatRange len k r None \<noteq> []
         then (k, normalizeFormatRange len k r None) # renormalized len m
         else renormalized len m)"
    by (simp add: renormalized_def a)
  show ?case
  proof (cases "k = f")
    case True
    then have "rs = r" using Cons.prems a by (auto simp: rev_image_eqI)
    moreover have "map_get (renormalized len m) f = None"
      using Cons.prems(1) a True by (intro renormalized_absent) auto
    ultimately show ?thesis using True by (simp add: step map_get_def)
  next
    case False
    then have "(f, rs) \<in> set m" using Cons.prems a by auto
    moreover have "distinct (map fst m)" using Cons.prems by simp
    ultimately show ?thesis using Cons.IH False by (simp add: step map_get_def)
  qed
qed

lemma stored_renormalized:
  assumes "distinct (map fst m)" and "(f, rs) \<in> set m"
  shows "(case map_get (renormalized len m) f of None \<Rightarrow> [] | Some x \<Rightarrow> x)
           = normalizeFormatRange len f rs None"
  by (simp add: renormalized_lookup[OF assms])

lemma with_value_all_Nil: "(\<forall>v. with_value v xs = []) \<longleftrightarrow> xs = []"
proof
  assume a: "\<forall>v. with_value v xs = []"
  show "xs = []"
  proof (cases xs)
    case Nil
    then show ?thesis .
  next
    case (Cons r rs)
    then have "r \<in> set (with_value (val r) xs)" by (simp add: with_value_def equal_refl)
    then show ?thesis using a by simp
  qed
qed (simp add: with_value_def)

lemma normalize_empty_iff:
  "normalizeFormatRange len f rs None = [] \<longleftrightarrow>
     (if overlap f
      then (\<forall>v. \<forall>x \<in> set (tileRanges len (map lift (with_value v rs))). x = None)
      else (\<forall>x \<in> set (tileRanges len (map lift rs)). x = None))"
proof (cases "overlap f")
  case True
  have "normalizeFormatRange len f rs None = []
      \<longleftrightarrow> (\<forall>v. with_value v (normalizeFormatRange len f rs None) = [])"
    by (simp only: with_value_all_Nil)
  then show ?thesis using True
    by (simp only: normalize_overlap_with_value[OF True] toRanges_Nil_iff if_True)
next
  case False
  then show ?thesis by (simp add: normalizeFormatRange_def toRanges_Nil_iff)
qed

lemma renormalized_entries:
  "(f, rs') \<in> set (renormalized len m) \<Longrightarrow>
   rs' \<noteq> [] \<and> (\<exists>rs. (f, rs) \<in> set m \<and> rs' = normalizeFormatRange len f rs None)"
  by (auto simp: renormalized_def)

lemma shrink_entries:
  assumes "distinct (map fst (fmt_map this))"
    and "(f, rs') \<in> set (fmt_map (shrink this start count))"
  shows "rs' \<noteq> [] \<and> (\<forall>r \<in> set rs'. within_slot (slot_length this) r) \<and>
         (\<not> overlap f \<longrightarrow> list_invariant rs') \<and>
         (overlap f \<longrightarrow> (\<forall>v. list_invariant (with_value v rs')))"
proof -
  let ?m = "map (\<lambda>(k, rs). (k, map (shrunk start count) rs)) (fmt_map this)"
  have "(f, rs') \<in> set (renormalized (slot_length this) ?m)"
    using assms(2) shrink_map[OF assms(1)] by simp
  from renormalized_entries[OF this] obtain rs where
    ne: "rs' \<noteq> []" and n: "rs' = normalizeFormatRange (slot_length this) f rs None" by blast
  show ?thesis
    using ne normalize_within[of _ "slot_length this" f rs None]
      normalize_shape[of f "slot_length this" rs]
    unfolding n by blast
qed

lemma shrink_content:
  assumes "distinct (map fst (fmt_map this))" and "(f, rs) \<in> set (fmt_map this)"
  shows "(\<not> overlap f \<longrightarrow>
           list_all2 cell_equal
             (tileRanges (slot_length this)
                (map lift (stored_ranges (shrink this start count) f)))
             (trim (tileRanges (slot_length this)
                (map lift (map (shrunk start count) rs))))) \<and>
         (overlap f \<longrightarrow>
           (\<forall>v. list_all2 cell_equal
             (tileRanges (slot_length this)
                (map lift (with_value v (stored_ranges (shrink this start count) f))))
             (trim (tileRanges (slot_length this)
                (map lift (with_value v (map (shrunk start count) rs)))))))"
proof -
  let ?m = "map (\<lambda>(k, rs). (k, map (shrunk start count) rs)) (fmt_map this)"
  have d: "distinct (map fst ?m)" using assms(1) by (simp only: map_fst_map_snd)
  have i: "(f, map (shrunk start count) rs) \<in> set ?m" using assms(2) by force
  have "stored_ranges (shrink this start count) f
      = normalizeFormatRange (slot_length this) f (map (shrunk start count) rs) None"
    using stored_renormalized[OF d i] shrink_map[OF assms(1)]
    by (simp add: stored_ranges_def)
  then show ?thesis
    using normalize_content[of f "slot_length this" "map (shrunk start count) rs"]
    by (simp only:)
qed

lemma shrink_dropped:
  assumes "distinct (map fst (fmt_map this))" and "(f, rs) \<in> set (fmt_map this)"
  shows "(map_get (fmt_map (shrink this start count)) f = None) =
           (if overlap f
            then (\<forall>v. \<forall>x \<in> set (tileRanges (slot_length this)
                          (map lift (with_value v (map (shrunk start count) rs)))). x = None)
            else (\<forall>x \<in> set (tileRanges (slot_length this)
                          (map lift (map (shrunk start count) rs))). x = None))"
proof -
  let ?m = "map (\<lambda>(k, rs). (k, map (shrunk start count) rs)) (fmt_map this)"
  have d: "distinct (map fst ?m)" using assms(1) by (simp only: map_fst_map_snd)
  have i: "(f, map (shrunk start count) rs) \<in> set ?m" using assms(2) by force
  have "(map_get (fmt_map (shrink this start count)) f = None)
      = (normalizeFormatRange (slot_length this) f (map (shrunk start count) rs) None = [])"
    using renormalized_lookup[OF d i] shrink_map[OF assms(1)] by simp
  then show ?thesis by (simp only: normalize_empty_iff)
qed

lemma shrinkStore_eval:
  "fmt_map (shrink shrinkStore 3 2)
     = [(bold, [\<lparr>startIndex = 0, endIndex = 6, val = vtrue\<rparr>]),
        (comment, [\<lparr>startIndex = 0, endIndex = 6, val = Plain (Prim (PStr ''a''))\<rparr>,
                   \<lparr>startIndex = 2, endIndex = 4, val = Plain (Prim (PStr ''b''))\<rparr>])]"
  by code_simp

text \<open>
  C6. \<open>shrink(start, count)\<close>, for \<open>count \<ge> 0\<close>, first adjusts every range: one ending at
  or before \<open>start\<close> is untouched; any other has its \<open>endIndex\<close> reduced by \<open>count\<close> but
  not below \<open>start\<close>, and its \<open>startIndex\<close>, when beyond \<open>start\<close>, reduced likewise.
  Then every formatter's list is replaced by its normal form (\<open>normalizeFormatRange\<close>,
  as in \<open>merge\<close>), and a formatter whose list has become empty is dropped. Continuing
  scenario B, \<open>shrink(3,2)\<close> turns \<open>{2,9,true}\<close> into \<open>{2,7,true}\<close>.

  The normal form is this. No list that \<open>shrink\<close> leaves is empty, and every range it
  leaves is non-empty and lies within the slot. The list of a formatter without overlap
  is pairwise disjoint, sorted by \<open>startIndex\<close>, with no two touching ranges of equal
  value; for a formatter with overlap this holds of the ranges of each value. The cells
  that the new list paints are, up to \<open>Format.equal\<close>, the cells that the adjusted
  ranges paint within the slot, trailing void cells apart (for a formatter with overlap,
  value by value); and a formatter is dropped exactly when its adjusted ranges paint no
  cell of the slot.
\<close>

theorem shrink_spec:
  assumes "distinct (map fst (fmt_map this))" and "0 \<le> count"
  shows "fmt_map (shrink this start count)
           = renormalized (slot_length this)
               (map (\<lambda>(k, rs). (k, map (shrunk start count) rs)) (fmt_map this)) \<and>
         slot_length (shrink this start count) = slot_length this \<and>
         (endIndex r \<le> start \<longrightarrow> shrunk start count r = r) \<and>
         (start < endIndex r \<longrightarrow>
            endIndex (shrunk start count r) = max start (endIndex r - count) \<and>
            start \<le> endIndex (shrunk start count r) \<and>
            endIndex r - count \<le> endIndex (shrunk start count r) \<and>
            endIndex (shrunk start count r) \<le> endIndex r) \<and>
         (start < endIndex r \<and> start < startIndex r \<longrightarrow>
            startIndex (shrunk start count r) = max start (startIndex r - count) \<and>
            start \<le> startIndex (shrunk start count r) \<and>
            startIndex (shrunk start count r) \<le> startIndex r) \<and>
         (startIndex r \<le> start \<longrightarrow> startIndex (shrunk start count r) = startIndex r) \<and>
         fmt_map (shrink scenarioB 3 2)
           = [(bold, [\<lparr>startIndex = 2, endIndex = 7, val = vtrue\<rparr>])] \<and>
         (\<forall>(f, rs') \<in> set (fmt_map (shrink this start count)).
            rs' \<noteq> [] \<and> (\<forall>r' \<in> set rs'. within_slot (slot_length this) r') \<and>
            (\<not> overlap f \<longrightarrow> list_invariant rs') \<and>
            (overlap f \<longrightarrow> (\<forall>v. list_invariant (with_value v rs')))) \<and>
         (\<forall>(f, rs) \<in> set (fmt_map this).
            (\<not> overlap f \<longrightarrow>
               list_all2 cell_equal
                 (tileRanges (slot_length this)
                    (map lift (stored_ranges (shrink this start count) f)))
                 (trim (tileRanges (slot_length this)
                    (map lift (map (shrunk start count) rs))))) \<and>
            (overlap f \<longrightarrow>
               (\<forall>v. list_all2 cell_equal
                 (tileRanges (slot_length this)
                    (map lift (with_value v (stored_ranges (shrink this start count) f))))
                 (trim (tileRanges (slot_length this)
                    (map lift (with_value v (map (shrunk start count) rs)))))))) \<and>
         (\<forall>(f, rs) \<in> set (fmt_map this).
            (map_get (fmt_map (shrink this start count)) f = None) =
              (if overlap f
               then (\<forall>v. \<forall>x \<in> set (tileRanges (slot_length this)
                             (map lift (with_value v (map (shrunk start count) rs)))). x = None)
               else (\<forall>x \<in> set (tileRanges (slot_length this)
                             (map lift (map (shrunk start count) rs))). x = None)))"
proof -
  have sl: "slot_length (shrink this start count) = slot_length this"
    by (simp add: shrink_def Let_def)
  have old: "fmt_map (shrink this start count)
           = renormalized (slot_length this)
               (map (\<lambda>(k, rs). (k, map (shrunk start count) rs)) (fmt_map this)) \<and>
         slot_length (shrink this start count) = slot_length this \<and>
         (endIndex r \<le> start \<longrightarrow> shrunk start count r = r) \<and>
         (start < endIndex r \<longrightarrow>
            endIndex (shrunk start count r) = max start (endIndex r - count) \<and>
            start \<le> endIndex (shrunk start count r) \<and>
            endIndex r - count \<le> endIndex (shrunk start count r) \<and>
            endIndex (shrunk start count r) \<le> endIndex r) \<and>
         (start < endIndex r \<and> start < startIndex r \<longrightarrow>
            startIndex (shrunk start count r) = max start (startIndex r - count) \<and>
            start \<le> startIndex (shrunk start count r) \<and>
            startIndex (shrunk start count r) \<le> startIndex r) \<and>
         (startIndex r \<le> start \<longrightarrow> startIndex (shrunk start count r) = startIndex r) \<and>
         fmt_map (shrink scenarioB 3 2)
           = [(bold, [\<lparr>startIndex = 2, endIndex = 7, val = vtrue\<rparr>])]"
    using sl shrink_map[OF assms(1)] assms(2) scenarioC_eval
    by (simp add: shrunk_def)
  have new1: "\<forall>(f, rs') \<in> set (fmt_map (shrink this start count)).
            rs' \<noteq> [] \<and> (\<forall>r' \<in> set rs'. within_slot (slot_length this) r') \<and>
            (\<not> overlap f \<longrightarrow> list_invariant rs') \<and>
            (overlap f \<longrightarrow> (\<forall>v. list_invariant (with_value v rs')))"
    using shrink_entries[OF assms(1)] by blast
  have new2: "\<forall>(f, rs) \<in> set (fmt_map this).
            (\<not> overlap f \<longrightarrow>
               list_all2 cell_equal
                 (tileRanges (slot_length this)
                    (map lift (stored_ranges (shrink this start count) f)))
                 (trim (tileRanges (slot_length this)
                    (map lift (map (shrunk start count) rs))))) \<and>
            (overlap f \<longrightarrow>
               (\<forall>v. list_all2 cell_equal
                 (tileRanges (slot_length this)
                    (map lift (with_value v (stored_ranges (shrink this start count) f))))
                 (trim (tileRanges (slot_length this)
                    (map lift (with_value v (map (shrunk start count) rs)))))))"
    using shrink_content[OF assms(1)] by blast
  have new3: "\<forall>(f, rs) \<in> set (fmt_map this).
            (map_get (fmt_map (shrink this start count)) f = None) =
              (if overlap f
               then (\<forall>v. \<forall>x \<in> set (tileRanges (slot_length this)
                             (map lift (with_value v (map (shrunk start count) rs)))). x = None)
               else (\<forall>x \<in> set (tileRanges (slot_length this)
                             (map lift (map (shrunk start count) rs))). x = None))"
    using shrink_dropped[OF assms(1)] by blast
  from old new1 new2 new3 show ?thesis by (intro conjI) (erule conjE | assumption)+
qed

theorem shrink_spec_witness:
  "distinct (map fst (fmt_map shrinkStore)) \<and> (0::int) \<le> 2 \<and>
   fmt_map (shrink shrinkStore 3 2)
     = renormalized (slot_length shrinkStore)
         (map (\<lambda>(k, rs). (k, map (shrunk 3 2) rs)) (fmt_map shrinkStore)) \<and>
   shrunk 3 2 \<lparr>startIndex = 5, endIndex = 8, val = vtrue\<rparr>
     = \<lparr>startIndex = 3, endIndex = 6, val = vtrue\<rparr> \<and>
   shrunk 3 2 \<lparr>startIndex = 3, endIndex = 5, val = vtrue\<rparr>
     = \<lparr>startIndex = 3, endIndex = 3, val = vtrue\<rparr> \<and>
   fmt_map (shrink shrinkStore 3 2)
     = [(bold, [\<lparr>startIndex = 0, endIndex = 6, val = vtrue\<rparr>]),
        (comment, [\<lparr>startIndex = 0, endIndex = 6, val = Plain (Prim (PStr ''a''))\<rparr>,
                   \<lparr>startIndex = 2, endIndex = 4, val = Plain (Prim (PStr ''b''))\<rparr>])] \<and>
   within_slot 10 \<lparr>startIndex = 0, endIndex = 6, val = vtrue\<rparr> \<and>
   list_invariant [\<lparr>startIndex = 0, endIndex = 6, val = vtrue\<rparr>] \<and>
   list_invariant
     (with_value (Plain (Prim (PStr ''a'')))
        [\<lparr>startIndex = 0, endIndex = 6, val = Plain (Prim (PStr ''a''))\<rparr>,
         \<lparr>startIndex = 2, endIndex = 4, val = Plain (Prim (PStr ''b''))\<rparr>]) \<and>
   map_get (fmt_map (shrink shrinkStore 3 2)) italic = None \<and>
   tileRanges 10 [lift \<lparr>startIndex = 3, endIndex = 3, val = vtrue\<rparr>] = [None, None, None]"
proof -
  have d: "distinct (map fst (fmt_map shrinkStore))" by code_simp
  have c: "(0::int) \<le> 2" by simp
  have s1: "shrunk 3 2 \<lparr>startIndex = 5, endIndex = 8, val = vtrue\<rparr>
     = \<lparr>startIndex = 3, endIndex = 6, val = vtrue\<rparr>" by (simp add: shrunk_def)
  have s2: "shrunk 3 2 \<lparr>startIndex = 3, endIndex = 5, val = vtrue\<rparr>
     = \<lparr>startIndex = 3, endIndex = 3, val = vtrue\<rparr>" by (simp add: shrunk_def)
  note t = shrink_spec[OF d c, of 3 "\<lparr>startIndex = 5, endIndex = 8, val = vtrue\<rparr>"]
  from t have a: "fmt_map (shrink shrinkStore 3 2)
     = renormalized (slot_length shrinkStore)
         (map (\<lambda>(k, rs). (k, map (shrunk 3 2) rs)) (fmt_map shrinkStore))"
    by (rule conjunct1)
  note e = t[THEN conjunct2, THEN conjunct2, THEN conjunct2, THEN conjunct2, THEN conjunct2,
      THEN conjunct2, THEN conjunct2, THEN conjunct1]
  have o: "\<not> overlap bold" "overlap comment" by (simp_all add: bold_def comment_def)
  have l: "slot_length shrinkStore = 10" by (simp add: shrinkStore_def)
  have w: "within_slot 10 \<lparr>startIndex = 0, endIndex = 6, val = vtrue\<rparr> \<and>
      list_invariant [\<lparr>startIndex = 0, endIndex = 6, val = vtrue\<rparr>] \<and>
      list_invariant
        (with_value (Plain (Prim (PStr ''a'')))
           [\<lparr>startIndex = 0, endIndex = 6, val = Plain (Prim (PStr ''a''))\<rparr>,
            \<lparr>startIndex = 2, endIndex = 4, val = Plain (Prim (PStr ''b''))\<rparr>])"
    using e o l by (simp add: shrinkStore_eval)
  have i: "map_get (fmt_map (shrink shrinkStore 3 2)) italic = None"
    by (simp add: shrinkStore_eval map_get_def bold_def italic_def comment_def)
  have ti: "tileRanges 10 [lift \<lparr>startIndex = 3, endIndex = 3, val = vtrue\<rparr>]
      = [None, None, None]"
    by code_simp
  show ?thesis using d c a s1 s2 shrinkStore_eval w i ti by blast
qed

end
